theory Spec2Isabelle
  imports Complex_Main "HOL-Library.Word" "HOL-Library.AList" "HOL-Library.Product_Lexorder"
begin

section \<open>Data model\<close>

text \<open>
  The repository is Python on top of OpenCV and NumPy. OpenCV itself is not part of the
  repository, so what its primitives return is data of the model:
  \<^item> a contour is the triple of what the code asks OpenCV about it: \<open>cv2.contourArea\<close>,
    \<open>cv2.arcLength(contour, True)\<close> and \<open>cv2.boundingRect\<close> (\<open>x, y, w, h\<close>, which OpenCV
    returns as non-negative integers);
  \<^item> an 8-bit single-channel image is a list of rows of \<open>8 word\<close> pixels.
  A Python \<open>float\<close> is a double, a real number here. In \<open>detect_bubbles\<close> every
  floating-point operation is followed by the rounding \<open>fl\<close> of the next section, and a
  literal such as \<open>0.6\<close> is the double \<open>fl (6 / 10)\<close>. The means of
  \<open>map_bubbles_to_questions\<close> and the aspect ratio of \<open>detect_corner_markers\<close> are
  quotients of small integers (pixel coordinates) that are only compared, with pixel
  coordinates and with 0.7 and 1.3; such a quotient differs from a bound it is not equal to
  by far more than the rounding error, so these comparisons are written on the exact
  quotients.
\<close>

record contour =
  contourArea :: real
  arcLength :: real
  boundingRect :: "nat \<times> nat \<times> nat \<times> nat"

text \<open>The dictionary \<open>detect_bubbles\<close> builds for each accepted contour.\<close>

record bubble =
  center :: "int \<times> int"
  bbox :: "nat \<times> nat \<times> nat \<times> nat"
  area :: real
  fill_ratio :: real
  contour :: contour

abbreviation center_x :: "bubble \<Rightarrow> int" where
  "center_x b \<equiv> fst (center b)"

abbreviation center_y :: "bubble \<Rightarrow> int" where
  "center_y b \<equiv> snd (center b)"

text \<open>
  A Python \<open>dict\<close> keeps its keys in insertion order; assigning to an existing key keeps
  the key's position. This is \<^const>\<open>AList.update\<close> on an association list, and
  \<^const>\<open>map_of\<close> is the lookup.
\<close>

type_synonym answers = "(nat \<times> string) list"

type_synonym organized = "(nat \<times> bubble list) list"

datatype exn = ValueError string | ZeroDivisionError | FileNotFoundError

section \<open>Floating point\<close>

text \<open>
  The doubles are the reals \<open>m * 2 ^ e\<close> with \<open>m\<close> an integer of at most 53 bits. The
  result of an arithmetic operation on doubles, and the value of a literal, is the double
  nearest to the exact value, the one with the even \<open>m\<close> in a tie (IEEE 754, round to
  nearest even). The exponent range is left out: no value of the program comes near the
  largest or the smallest double, and none is infinite or \<open>nan\<close> in the functions that
  use \<open>fl\<close>.

  \<open>binade x\<close> is the exponent \<open>e\<close> with \<open>2 ^ e \<le> \<bar>x\<bar> < 2 ^ (e + 1)\<close>, found by halving
  or doubling.
\<close>

function expo_up :: "real \<Rightarrow> int" where
  "expo_up x = (if x < 2 then 0 else expo_up (x / 2) + 1)"
  by pat_completeness auto
termination
proof (relation "measure (\<lambda>x. nat \<lfloor>x\<rfloor>)")
  show "wf (measure (\<lambda>x::real. nat \<lfloor>x\<rfloor>))" by simp
next
  fix x :: real
  assume "\<not> x < 2"
  then have "2 \<le> \<lfloor>x\<rfloor>" by (simp add: le_floor_iff)
  moreover have "\<lfloor>x / 2\<rfloor> = \<lfloor>x\<rfloor> div 2"
    using floor_divide_real_eq_div [of 2 x] by simp
  ultimately have "nat \<lfloor>x / 2\<rfloor> < nat \<lfloor>x\<rfloor>" by linarith
  then show "(x / 2, x) \<in> measure (\<lambda>x. nat \<lfloor>x\<rfloor>)" by simp
qed

function expo_down :: "real \<Rightarrow> int" where
  "expo_down x = (if x \<le> 0 \<or> 1 \<le> x then 0 else expo_down (2 * x) - 1)"
  by pat_completeness auto
termination
proof (relation "measure (\<lambda>x. nat \<lfloor>1 / x\<rfloor>)")
  show "wf (measure (\<lambda>x::real. nat \<lfloor>1 / x\<rfloor>))" by simp
next
  fix x :: real
  assume "\<not> (x \<le> 0 \<or> 1 \<le> x)"
  then have x: "0 < x" "x < 1" by simp_all
  then have "1 \<le> 1 / x" by simp
  then have "1 \<le> \<lfloor>1 / x\<rfloor>" by (simp add: le_floor_iff)
  moreover have "\<lfloor>1 / (2 * x)\<rfloor> = \<lfloor>1 / x\<rfloor> div 2"
    using floor_divide_real_eq_div [of 2 "1 / x"] by (simp add: field_simps)
  ultimately have "nat \<lfloor>1 / (2 * x)\<rfloor> < nat \<lfloor>1 / x\<rfloor>" by linarith
  then show "(2 * x, x) \<in> measure (\<lambda>x. nat \<lfloor>1 / x\<rfloor>)" by simp
qed

declare expo_up.simps [simp del] expo_down.simps [simp del]

definition binade :: "real \<Rightarrow> int" where
  "binade x = (if 1 \<le> \<bar>x\<bar> then expo_up \<bar>x\<bar> else expo_down \<bar>x\<bar>)"

text \<open>The integer nearest to \<open>y\<close>, the even one of the two when \<open>y\<close> lies half way.\<close>

definition round_even :: "real \<Rightarrow> int" where
  "round_even y =
     (let n = \<lfloor>y\<rfloor>; r = y - of_int n in
      if r < 1 / 2 then n else if r > 1 / 2 then n + 1 else if even n then n else n + 1)"

text \<open>
  The double nearest to \<open>x\<close>: with \<open>u\<close> the distance of neighbouring doubles around
  \<open>x\<close>, the multiple of \<open>u\<close> nearest to \<open>x\<close>.
\<close>

definition fl :: "real \<Rightarrow> real" where
  "fl x = (if x = 0 then 0
           else let u = 2 powi (binade x - 52) in u * of_int (round_even (x / u)))"

section \<open>mcq\_scanner.py: \<open>map_bubbles_to_questions\<close>\<close>

definition choices :: "string list" where
  "choices = [''A'', ''B'', ''C'', ''D'']"

text \<open>
  \<open>np.mean\<close> of a list of Python integers that is not empty. (For the empty list NumPy
  returns \<open>nan\<close>; the quotient below is 0 there.)
\<close>

definition np_mean :: "int list \<Rightarrow> real" where
  "np_mean xs = real_of_int (sum_list xs) / real (length xs)"

text \<open>
  The inner loop \<open>for i, bubble in enumerate(side[:4]): if bubble['fill_ratio'] >
  self.bubble_threshold: answers[question_num] = choices[i]; break\<close>. The first equation
  of the second case is the \<open>break\<close>: the rest of the list is dropped unread.
\<close>

fun answer_loop :: "real \<Rightarrow> nat \<Rightarrow> nat \<Rightarrow> bubble list \<Rightarrow> answers \<Rightarrow> answers" where
  "answer_loop thr question_num i [] answers = answers"
| "answer_loop thr question_num i (b # rest) answers =
     (if fill_ratio b > thr then AList.update question_num (choices ! i) answers
      else answer_loop thr question_num (Suc i) rest answers)"

definition avg_x :: "bubble list \<Rightarrow> real" where
  "avg_x row_bubbles = np_mean (map center_x row_bubbles)"

definition left_bubbles :: "bubble list \<Rightarrow> bubble list" where
  "left_bubbles row_bubbles =
     filter (\<lambda>b. real_of_int (center_x b) < avg_x row_bubbles) row_bubbles"

definition right_bubbles :: "bubble list \<Rightarrow> bubble list" where
  "right_bubbles row_bubbles =
     filter (\<lambda>b. real_of_int (center_x b) \<ge> avg_x row_bubbles) row_bubbles"

text \<open>The body of the loop over the rows, for the row at position \<open>row_idx\<close>.\<close>

definition process_row :: "real \<Rightarrow> nat \<Rightarrow> bubble list \<Rightarrow> answers \<Rightarrow> answers" where
  "process_row thr row_idx row_bubbles answers =
     (if length row_bubbles < 4 then answers
      else
        let answers1 =
              (if length (left_bubbles row_bubbles) \<ge> 4 then
                 (let question_num = row_idx + 1 in
                  if question_num \<le> 25 then
                    answer_loop thr question_num 0
                      (take 4 (sort_key center_x (left_bubbles row_bubbles))) answers
                  else answers)
               else answers)
        in
          (if length (right_bubbles row_bubbles) \<ge> 4 then
             (let question_num = row_idx + 26 in
              if question_num \<le> 50 then
                answer_loop thr question_num 0
                  (take 4 (sort_key center_x (right_bubbles row_bubbles))) answers1
              else answers1)
           else answers1))"

text \<open>\<open>for row_idx, (_, row_bubbles) in enumerate(sorted_rows)\<close>, from index \<open>row_idx\<close> on.\<close>

fun rows_loop :: "real \<Rightarrow> nat \<Rightarrow> bubble list list \<Rightarrow> answers \<Rightarrow> answers" where
  "rows_loop thr row_idx [] answers = answers"
| "rows_loop thr row_idx (row_bubbles # rest) answers =
     rows_loop thr (Suc row_idx) rest (process_row thr row_idx row_bubbles answers)"

text \<open>
  \<open>sorted(organized_bubbles.items(), key=mean of the row's y)\<close>. Python's \<open>sorted\<close> is
  stable, as \<^const>\<open>sort_key\<close> is. A row is never empty when it comes from
  \<open>organize_bubbles_by_rows\<close> (lemma \<open>organize_rows_nonempty\<close>). For an empty row
  NumPy's mean is \<open>nan\<close>, which has no place in a linear order: there the order of the
  rows in the code need not be the one below. The results that quantify over every input
  are therefore stated for \<^const>\<open>rows_loop\<close> on the rows in any order.
\<close>

definition sorted_rows :: "organized \<Rightarrow> bubble list list" where
  "sorted_rows organized_bubbles =
     map snd (sort_key (\<lambda>x. np_mean (map center_y (snd x))) organized_bubbles)"

definition map_bubbles_to_questions :: "real \<Rightarrow> organized \<Rightarrow> answers" where
  "map_bubbles_to_questions thr organized_bubbles =
     rows_loop thr 0 (sorted_rows organized_bubbles) []"

section \<open>mcq\_scanner.py: \<open>detect_bubbles\<close>\<close>

text \<open>
  \<open>thresh_img[y:y+h, x:x+w]\<close>: NumPy slicing cuts the region off at the image border, as
  \<^const>\<open>take\<close> and \<^const>\<open>drop\<close> do.
\<close>

definition bubble_region :: "8 word list list \<Rightarrow> nat \<times> nat \<times> nat \<times> nat \<Rightarrow> 8 word list list" where
  "bubble_region thresh_img r =
     (case r of (x, y, w, h) \<Rightarrow> map (\<lambda>row. take w (drop x row)) (take h (drop y thresh_img)))"

text \<open>\<open>np.sum\<close> of a \<open>uint8\<close> array adds in 64-bit integers: no wrap-around at image sizes.\<close>

definition np_sum :: "8 word list list \<Rightarrow> nat" where
  "np_sum region = sum_list (map unat (concat region))"

text \<open>\<open>np.pi\<close> is the double nearest to \<open>pi\<close>, this fraction.\<close>

definition np_pi :: real where
  "np_pi = 884279719003555 / 281474976710656"

text \<open>
  The loop over the contours, \<open>bubbles\<close> being the list built so far. Each \<open>continue\<close> is a
  recursive call that leaves \<open>bubbles\<close> as it is. \<open>float(w) / h\<close> raises for \<open>h = 0\<close>.
  \<open>cv2.contourArea\<close> and \<open>cv2.arcLength\<close> return doubles, and the integers that are
  converted to doubles (\<open>w\<close>, \<open>h\<close>, the pixel sum, \<open>255 * w * h\<close>) are far below \<open>2 ^ 53\<close>,
  so the operands below are exact and each operation rounds once. Python evaluates
  \<open>4 * np.pi * area / (perimeter * perimeter)\<close> from the left.
\<close>

fun detect_loop :: "8 word list list \<Rightarrow> contour list \<Rightarrow> bubble list \<Rightarrow> exn + bubble list" where
  "detect_loop thresh_img [] bubbles = Inr bubbles"
| "detect_loop thresh_img (c # cs) bubbles =
     (let area = contourArea c; perimeter = arcLength c in
      if area < 100 \<or> area > 2000 then detect_loop thresh_img cs bubbles
      else if perimeter = 0 then detect_loop thresh_img cs bubbles
      else
        let circularity = fl (fl (fl (4 * np_pi) * area) / fl (perimeter * perimeter)) in
        if circularity < fl (6 / 10) then detect_loop thresh_img cs bubbles
        else
          (case boundingRect c of (x, y, w, h) \<Rightarrow>
             if h = 0 then Inl ZeroDivisionError
             else
               let aspect_ratio = fl (real w / real h) in
               if aspect_ratio < fl (7 / 10) \<or> aspect_ratio > fl (13 / 10)
               then detect_loop thresh_img cs bubbles
               else
                 let center_x = int (x + w div 2);
                     center_y = int (y + h div 2);
                     region = bubble_region thresh_img (x, y, w, h);
                     fill_ratio = fl (real (np_sum region) / real (255 * w * h))
                 in detect_loop thresh_img cs
                      (bubbles @
                        [\<lparr>center = (center_x, center_y), bbox = (x, y, w, h), area = area,
                          fill_ratio = fill_ratio, contour = c\<rparr>])))"

definition detect_bubbles :: "8 word list list \<Rightarrow> contour list \<Rightarrow> exn + bubble list" where
  "detect_bubbles thresh_img contours = detect_loop thresh_img contours []"

section \<open>mcq\_scanner.py: \<open>organize_bubbles_by_rows\<close>\<close>

definition tolerance :: int where
  "tolerance = 20"

text \<open>The state of the clustering loop: the dictionary \<open>rows\<close>, \<open>current_row\<close> and \<open>last_y\<close>.\<close>

record row_state =
  rows :: organized
  current_row :: nat
  last_y :: int

text \<open>
  One pass of the loop body. \<open>last_y\<close> is assigned only inside the \<open>if\<close>, together with
  the increment of \<open>current_row\<close>. Then \<open>rows[current_row]\<close> is created when missing and the
  bubble appended to it; the lookup cannot miss after the creation.
\<close>

definition row_step :: "row_state \<Rightarrow> bubble \<Rightarrow> row_state" where
  "row_step s b =
     (let y = center_y b;
          s1 = (if \<bar>y - last_y s\<bar> > tolerance
                then s\<lparr>current_row := current_row s + 1, last_y := y\<rparr> else s);
          rows1 = (if map_of (rows s1) (current_row s1) = None
                   then AList.update (current_row s1) [] (rows s1) else rows s1);
          rows2 = (case map_of rows1 (current_row s1) of
                     Some r \<Rightarrow> AList.update (current_row s1) (r @ [b]) rows1
                   | None \<Rightarrow> rows1)
      in s1\<lparr>rows := rows2\<rparr>)"

fun row_loop :: "row_state \<Rightarrow> bubble list \<Rightarrow> row_state" where
  "row_loop s [] = s"
| "row_loop s (b # bs) = row_loop (row_step s b) bs"

text \<open>The state before the loop, for the list already sorted by y.\<close>

definition row_init :: "bubble list \<Rightarrow> row_state" where
  "row_init bs = \<lparr>rows = [], current_row = 0, last_y = center_y (bs ! 0)\<rparr>"

text \<open>Both \<open>list.sort\<close> calls are stable sorts, as \<^const>\<open>sort_key\<close> is.\<close>

definition organize_bubbles_by_rows :: "bubble list \<Rightarrow> organized" where
  "organize_bubbles_by_rows bubbles =
     (if bubbles = [] then []
      else
        let bs = sort_key center_y bubbles;
            s = row_loop (row_init bs) bs
        in map (\<lambda>(k, row). (k, sort_key center_x row)) (rows s))"

section \<open>mcq\_scanner.py: the scan and the command line\<close>

text \<open>
  What OpenCV makes of an image file that it could read: the thresholded image
  (\<open>cv2.adaptiveThreshold\<close> of the blurred grey image) and the external contours
  \<open>cv2.findContours\<close> returns for it. \<open>cv2.imread\<close> is a function from paths to such
  results, \<open>None\<close> for a file that is missing or cannot be decoded.
\<close>

record cv_image =
  thresh_of :: "8 word list list"
  contours_of :: "contour list"

type_synonym imread = "string \<Rightarrow> cv_image option"

text \<open>What a run does to the outside: lines on standard output and files written.\<close>

datatype event =
    Print string
  | ImWrite string
  | MakeDirs string
  | JsonDump string answers

definition preprocess_image :: "imread \<Rightarrow> string \<Rightarrow> exn + cv_image" where
  "preprocess_image imread image_path =
     (case imread image_path of
        None \<Rightarrow> Inl (ValueError (''Could not load image from '' @ image_path))
      | Some img \<Rightarrow> Inr img)"

text \<open>\<open>str(e)\<close> for the exceptions of the model.\<close>

fun str_exn :: "exn \<Rightarrow> string" where
  "str_exn (ValueError msg) = msg"
| "str_exn ZeroDivisionError = ''float division by zero''"
| "str_exn FileNotFoundError = ''[Errno 2] No such file or directory: '' @ [CHR 0x27, CHR 0x27]"

text \<open>\<open>str(n)\<close> of a non-negative integer, and the format \<open>{n:2d}\<close>.\<close>

fun str_nat :: "nat \<Rightarrow> string" where
  "str_nat n =
     (if n < 10 then [''0123456789'' ! n]
      else str_nat (n div 10) @ [''0123456789'' ! (n mod 10)])"

definition fmt_2d :: "nat \<Rightarrow> string" where
  "fmt_2d n = (if n < 10 then '' '' @ str_nat n else str_nat n)"

text \<open>
  \<open>os.path.join\<close> of two components (POSIX): an absolute second component replaces the
  first, and a separator is put in unless the first is empty or ends with one.
\<close>

definition path_join :: "string \<Rightarrow> string \<Rightarrow> string" where
  "path_join d f =
     (if f \<noteq> [] \<and> hd f = CHR ''/'' then f
      else if d = [] \<or> last d = CHR ''/'' then d @ f
      else d @ ''/'' @ f)"

text \<open>
  The output of the scan when \<open>debug\<close> is set, in the order of the code. The picture itself
  is not modelled, and the drawing calls are taken not to raise (\<open>cv2.imwrite\<close> reports a
  failure through its return value, which the code ignores).
\<close>

definition debug_events :: "bubble list \<Rightarrow> organized \<Rightarrow> string \<Rightarrow> event list" where
  "debug_events bubbles organized_bubbles output_dir =
     [Print (''Detected '' @ str_nat (length bubbles) @ '' potential bubbles''),
      Print (''Organized into '' @ str_nat (length organized_bubbles) @ '' rows'')] @
     map (\<lambda>(row_idx, row_bubbles).
            Print (''Row '' @ str_nat row_idx @ '': '' @ str_nat (length row_bubbles) @ '' bubbles''))
       organized_bubbles @
     [ImWrite (path_join output_dir ''debug_bubbles.jpg''),
      Print (''Debug image saved as '' @ [CHR 0x27] @ path_join output_dir ''debug_bubbles.jpg''
             @ [CHR 0x27])]"

text \<open>
  \<open>scan_answer_sheet\<close>: the \<open>try\<close> block, and the \<open>except Exception\<close> branch that prints the
  error and returns the empty dictionary. Both places that can raise come before the first
  \<open>print\<close>. The threshold is the field \<open>self.bubble_threshold\<close>, which the scan only reads.
\<close>

definition scan_answer_sheet ::
    "real \<Rightarrow> imread \<Rightarrow> string \<Rightarrow> bool \<Rightarrow> string \<Rightarrow> event list \<times> answers" where
  "scan_answer_sheet thr imread image_path debug output_dir =
     (case preprocess_image imread image_path of
        Inl e \<Rightarrow> ([Print (''Error scanning answer sheet: '' @ str_exn e)], [])
      | Inr img \<Rightarrow>
          (case detect_bubbles (thresh_of img) (contours_of img) of
             Inl e \<Rightarrow> ([Print (''Error scanning answer sheet: '' @ str_exn e)], [])
           | Inr bubbles \<Rightarrow>
               let organized_bubbles = organize_bubbles_by_rows bubbles;
                   answers = map_bubbles_to_questions thr organized_bubbles
               in ((if debug then debug_events bubbles organized_bubbles output_dir else []),
                   answers)))"

definition print_results :: "answers \<Rightarrow> event list" where
  "print_results answers =
     [Print (CHR 0x0A # ''=== SCANNED ANSWERS ==='')] @
     map (\<lambda>question.
            Print (''Question '' @ fmt_2d question @ '': '' @
                   (case map_of answers question of
                      Some answer \<Rightarrow> answer
                    | None \<Rightarrow> ''No answer detected'')))
       [1..<51] @
     [Print (CHR 0x0A # ''Total answered questions: '' @ str_nat (length answers) @ ''/50'')]"

text \<open>
  \<open>save_results\<close>. \<open>os.makedirs('', exist_ok=True)\<close> raises \<open>FileNotFoundError\<close>; any
  other directory is taken to be one that can be created and written to.
\<close>

definition save_results :: "answers \<Rightarrow> string \<Rightarrow> string \<Rightarrow> exn + event list" where
  "save_results answers output_dir output_filename =
     (if output_dir = [] then Inl FileNotFoundError
      else Inr [MakeDirs output_dir,
                JsonDump (path_join output_dir output_filename) answers,
                Print (''Results saved to '' @ path_join output_dir output_filename)])"

text \<open>
  The script's main block, for the parsed arguments, with its two \<open>except\<close> branches. What
  was printed before an exception stays printed.
\<close>

record args =
  image_path :: string
  output_dir :: string
  output_file :: string
  debug :: bool
  threshold :: real

definition main :: "imread \<Rightarrow> args \<Rightarrow> event list" where
  "main imread a =
     (case scan_answer_sheet (threshold a) imread (image_path a) (debug a) (output_dir a) of
        (out, answers) \<Rightarrow>
          out @ print_results answers @
          (case save_results answers (output_dir a) (output_file a) of
             Inr saved \<Rightarrow> saved
           | Inl FileNotFoundError \<Rightarrow>
               [Print (''Error: Could not find image file '' @ [CHR 0x27] @ image_path a
                       @ [CHR 0x27]),
                Print ''Please make sure the image file exists and provide the correct path'']
           | Inl e \<Rightarrow> [Print (''Error: '' @ str_exn e)]))"

section \<open>image\_straightener.py: \<open>detect_corner_markers\<close>\<close>

text \<open>
  The grey image enters through its shape and through the external contours of its Otsu
  binarisation. The loop collects the centres of the marker-sized, squarish contours near a
  corner; \<open>w / h\<close> raises for \<open>h = 0\<close>.
\<close>

fun corners_loop :: "int \<Rightarrow> int \<Rightarrow> contour list \<Rightarrow> (int \<times> int) list \<Rightarrow> exn + (int \<times> int) list" where
  "corners_loop height width [] corners = Inr corners"
| "corners_loop height width (c # cs) corners =
     (let area = contourArea c in
      if 100 < area \<and> area < 2000 then
        (case boundingRect c of (x, y, w, h) \<Rightarrow>
           if h = 0 then Inl ZeroDivisionError
           else
             let aspect_ratio = real w / real h in
             if 7 / 10 < aspect_ratio \<and> aspect_ratio < 13 / 10 then
               (let center_x = int (x + w div 2);
                    center_y = int (y + h div 2);
                    margin = 100
                in if (center_x < margin \<or> center_x > width - margin) \<and>
                      (center_y < margin \<or> center_y > height - margin)
                   then corners_loop height width cs (corners @ [(center_x, center_y)])
                   else corners_loop height width cs corners)
             else corners_loop height width cs corners)
      else corners_loop height width cs corners)"

definition fallback_corners :: "int \<Rightarrow> int \<Rightarrow> (int \<times> int) list" where
  "fallback_corners height width =
     (let h = height; w = width; margin = 50 in
      [(margin, margin), (w - margin, margin), (w - margin, h - margin), (margin, h - margin)])"

text \<open>
  Python orders tuples lexicographically, which is the order of pairs here; \<open>xs[-1]\<close> is
  \<^const>\<open>last\<close> on a list that is not empty. \<open>top_corners\<close> and \<open>bottom_corners\<close> are the
  two local lists of the code, computed from the list \<open>sorted(corners)\<close>; the code computes
  them only when there are at least four corners.
\<close>

definition top_corners :: "int \<Rightarrow> (int \<times> int) list \<Rightarrow> (int \<times> int) list" where
  "top_corners height corners = sort (filter (\<lambda>c. snd c < height div 2) (sort corners))"

definition bottom_corners :: "int \<Rightarrow> (int \<times> int) list \<Rightarrow> (int \<times> int) list" where
  "bottom_corners height corners = sort (filter (\<lambda>c. snd c \<ge> height div 2) (sort corners))"

definition detect_corner_markers :: "int \<Rightarrow> int \<Rightarrow> contour list \<Rightarrow> exn + (int \<times> int) list" where
  "detect_corner_markers height width contours =
     (case corners_loop height width contours [] of
        Inl e \<Rightarrow> Inl e
      | Inr corners \<Rightarrow>
          if length corners \<ge> 4 then
            (if length (top_corners height corners) \<ge> 2 \<and>
                length (bottom_corners height corners) \<ge> 2
             then Inr [top_corners height corners ! 0, last (top_corners height corners),
                       last (bottom_corners height corners), bottom_corners height corners ! 0]
             else Inr (fallback_corners height width))
          else Inr (fallback_corners height width))"

section \<open>Notions used to state the properties\<close>

subsection \<open>Answer resolution\<close>

text \<open>The position of the first bubble of a list whose fill ratio exceeds the threshold.\<close>

fun first_marked :: "real \<Rightarrow> bubble list \<Rightarrow> nat option" where
  "first_marked thr [] = None"
| "first_marked thr (b # rest) =
     (if fill_ratio b > thr then Some 0 else map_option Suc (first_marked thr rest))"

text \<open>
  The letter a side group of a row resolves to: the group needs four bubbles, and the first
  four in x order stand for A to D.
\<close>

definition side_letter :: "real \<Rightarrow> bubble list \<Rightarrow> string option" where
  "side_letter thr side =
     (if length side \<ge> 4
      then map_option (\<lambda>i. choices ! i) (first_marked thr (take 4 (sort_key center_x side)))
      else None)"

text \<open>What the row at position \<open>row_idx\<close> writes for question \<open>q\<close>, if anything.\<close>

definition row_answer :: "real \<Rightarrow> nat \<Rightarrow> bubble list \<Rightarrow> nat \<Rightarrow> string option" where
  "row_answer thr row_idx row q =
     (if length row < 4 then None
      else if q = row_idx + 26 \<and> q \<le> 50 then side_letter thr (right_bubbles row)
      else if q = row_idx + 1 \<and> q \<le> 25 then side_letter thr (left_bubbles row)
      else None)"

text \<open>What the rows \<open>rws\<close>, enumerated from \<open>n\<close>, write for question \<open>q\<close>.\<close>

definition writer :: "real \<Rightarrow> nat \<Rightarrow> bubble list list \<Rightarrow> nat \<Rightarrow> string option" where
  "writer thr n rws q =
     (if n + 1 \<le> q \<and> q \<le> 25 \<and> q - 1 - n < length rws
      then row_answer thr (q - 1) (rws ! (q - 1 - n)) q
      else if n + 26 \<le> q \<and> q \<le> 50 \<and> q - 26 - n < length rws
      then row_answer thr (q - 26) (rws ! (q - 26 - n)) q
      else None)"

text \<open>
  A side group has a marked bubble: it has its four bubbles and one of the first four
  exceeds the threshold. The slot of question \<open>q\<close> is the left group of row \<open>q - 1\<close> for
  \<open>q\<close> in 1..25 and the right group of row \<open>q - 26\<close> for \<open>q\<close> in 26..50.
\<close>

definition side_marked :: "real \<Rightarrow> bubble list \<Rightarrow> bool" where
  "side_marked thr side \<longleftrightarrow>
     4 \<le> length side \<and> (\<exists>b\<in>set (take 4 (sort_key center_x side)). fill_ratio b > thr)"

definition slot_marked :: "real \<Rightarrow> bubble list list \<Rightarrow> nat \<Rightarrow> bool" where
  "slot_marked thr rws q \<longleftrightarrow>
     (1 \<le> q \<and> q \<le> 25 \<and> q - 1 < length rws \<and> 4 \<le> length (rws ! (q - 1)) \<and>
      side_marked thr (left_bubbles (rws ! (q - 1)))) \<or>
     (26 \<le> q \<and> q \<le> 50 \<and> q - 26 < length rws \<and> 4 \<le> length (rws ! (q - 26)) \<and>
      side_marked thr (right_bubbles (rws ! (q - 26))))"

text \<open>A well-formed answer dictionary: one entry per key, keys in 1..50, values A to D.\<close>

definition valid_answers :: "answers \<Rightarrow> bool" where
  "valid_answers answers \<longleftrightarrow>
     distinct (map fst answers) \<and>
     (\<forall>(q, v) \<in> set answers. 1 \<le> q \<and> q \<le> 50 \<and> v \<in> {''A'', ''B'', ''C'', ''D''})"

subsection \<open>Row clustering\<close>

text \<open>
  The state of the clustering loop after the first \<open>n\<close> candidates of the sorted list
  \<open>cs\<close>; the row the \<open>i\<close>-th candidate is appended to, which is \<open>current_row\<close> right after
  its pass; and the value of \<open>last_y\<close> at that moment.
\<close>

definition state_after :: "bubble list \<Rightarrow> nat \<Rightarrow> row_state" where
  "state_after cs n = row_loop (row_init cs) (take n cs)"

definition row_of :: "bubble list \<Rightarrow> nat \<Rightarrow> nat" where
  "row_of cs i = current_row (state_after cs (Suc i))"

definition anchor_y :: "bubble list \<Rightarrow> nat \<Rightarrow> int" where
  "anchor_y cs i = last_y (state_after cs (Suc i))"

text \<open>The candidates of \<open>cs\<close> that were appended to row \<open>k\<close>, in the order of \<open>cs\<close>.\<close>

definition row_members :: "bubble list \<Rightarrow> nat \<Rightarrow> bubble list" where
  "row_members cs k =
     map snd (filter (\<lambda>p. fst p = k) (zip (map (row_of cs) [0..<length cs]) cs))"

fun ids_from :: "row_state \<Rightarrow> bubble list \<Rightarrow> nat list" where
  "ids_from s [] = []"
| "ids_from s (b # bs) = current_row (row_step s b) # ids_from (row_step s b) bs"

subsection \<open>Fill ratio\<close>





subsection \<open>Corner markers\<close>

text \<open>
  The filter of \<open>detect_corner_markers\<close> read as a predicate, and the centres of the
  contours that pass it, in the order of the contours.
\<close>

definition marker_center :: "contour \<Rightarrow> int \<times> int" where
  "marker_center c =
     (case boundingRect c of (x, y, w, h) \<Rightarrow> (int (x + w div 2), int (y + h div 2)))"

definition valid_marker :: "int \<Rightarrow> int \<Rightarrow> contour \<Rightarrow> bool" where
  "valid_marker height width c \<longleftrightarrow>
     100 < contourArea c \<and> contourArea c < 2000 \<and>
     (case boundingRect c of (x, y, w, h) \<Rightarrow>
        7 / 10 < real w / real h \<and> real w / real h < 13 / 10 \<and>
        (fst (marker_center c) < 100 \<or> fst (marker_center c) > width - 100) \<and>
        (snd (marker_center c) < 100 \<or> snd (marker_center c) > height - 100))"

definition valid_markers :: "int \<Rightarrow> int \<Rightarrow> contour list \<Rightarrow> (int \<times> int) list" where
  "valid_markers height width contours =
     map marker_center (filter (valid_marker height width) contours)"

text \<open>OpenCV's bounding rectangle of a contour is at least one pixel high.\<close>

definition positive_height :: "contour \<Rightarrow> bool" where
  "positive_height c = (case boundingRect c of (x, y, w, h) \<Rightarrow> 0 < h)"

text \<open>
  The four returned points are top-left, top-right, bottom-right, bottom-left of the
  surviving markers: the first two lie in the top half and the last two in the bottom half,
  and in each half the left one is the least and the right one the greatest marker (in the
  order of pairs, x first).
\<close>

definition corner_order :: "int \<Rightarrow> (int \<times> int) list \<Rightarrow> (int \<times> int) list \<Rightarrow> bool" where
  "corner_order height corners result \<longleftrightarrow>
     (case result of
        [tleft, tright, bright, bleft] \<Rightarrow>
          set result \<subseteq> set corners \<and>
          snd tleft < height div 2 \<and> snd tright < height div 2 \<and>
          snd bright \<ge> height div 2 \<and> snd bleft \<ge> height div 2 \<and>
          fst tleft \<le> fst tright \<and> fst bleft \<le> fst bright \<and>
          (\<forall>c\<in>set corners. if snd c < height div 2 then tleft \<le> c \<and> c \<le> tright
                            else bleft \<le> c \<and> c \<le> bright)
      | _ \<Rightarrow> False)"

subsection \<open>Sample inputs\<close>

text \<open>A bubble of 20 by 20 pixels centred at \<open>(x, y)\<close> with fill ratio \<open>fr\<close>.\<close>

definition mk_bubble :: "int \<Rightarrow> int \<Rightarrow> real \<Rightarrow> bubble" where
  "mk_bubble x y fr =
     \<lparr>center = (x, y), bbox = (nat (x - 10), nat (y - 10), 20, 20), area = 300,
      fill_ratio = fr,
      contour = \<lparr>contourArea = 300, arcLength = 62,
                 boundingRect = (nat (x - 10), nat (y - 10), 20, 20)\<rparr>\<rparr>"

text \<open>A row of the sheet: four bubbles in the left column block, four in the right.\<close>

definition full_row :: "int \<Rightarrow> real list \<Rightarrow> bubble list" where
  "full_row y frs =
     map (\<lambda>(x, fr). mk_bubble x y fr) (zip [110, 140, 170, 200, 510, 540, 570, 600] frs)"

text \<open>A row that lost its fourth left bubble and has a stray mark on the right.\<close>

definition lopsided_row :: "bubble list" where
  "lopsided_row =
     map (\<lambda>(x, fr). mk_bubble x 100 fr)
       (zip [110, 140, 170, 480, 510, 540, 570, 600] [0, 0, 0, 9 / 10, 0, 0, 0, 0])"

text \<open>Three candidates whose y is 100, 115 and 130.\<close>

definition drifting :: "bubble list" where
  "drifting = [mk_bubble 110 100 0, mk_bubble 140 115 0, mk_bubble 170 130 0]"







text \<open>Four square markers in the corners of a sheet of 800 by 1000 pixels.\<close>

definition marker :: "nat \<Rightarrow> nat \<Rightarrow> contour" where
  "marker x y = \<lparr>contourArea = 841, arcLength = 116, boundingRect = (x, y, 30, 30)\<rparr>"

definition four_markers :: "contour list" where
  "four_markers = [marker 20 20, marker 750 20, marker 750 950, marker 20 950]"

text \<open>
  A file system in which no image can be read, one that holds a blank sheet, and the
  arguments of a run with the defaults of the command line.
\<close>

definition no_image :: imread where
  "no_image = (\<lambda>p. None)"

definition blank_sheet :: imread where
  "blank_sheet = (\<lambda>p. Some \<lparr>thresh_of = [], contours_of = []\<rparr>)"

definition default_args :: "string \<Rightarrow> args" where
  "default_args p =
     \<lparr>image_path = p, output_dir = ''.'', output_file = ''scanned_answers.json'',
      debug = False, threshold = fl (6 / 10)\<rparr>"

section \<open>Answer resolution\<close>

subsection \<open>The inner loop stops at the first marked bubble\<close>

lemma answer_loop_first_marked:
  "answer_loop thr q i bs answers =
     (case first_marked thr bs of
        None \<Rightarrow> answers
      | Some j \<Rightarrow> AList.update q (choices ! (i + j)) answers)"
  by (induction bs arbitrary: i) (auto split: option.splits)

lemma first_marked_append:
  "\<forall>p\<in>set pre. fill_ratio p \<le> thr \<Longrightarrow> fill_ratio b > thr \<Longrightarrow>
   first_marked thr (pre @ b # rest) = Some (length pre)"
  by (induction pre) auto


lemma first_marked_None_iff:
  "first_marked thr bs = None \<longleftrightarrow> \<not> (\<exists>b\<in>set bs. fill_ratio b > thr)"
  by (induction bs) auto

lemma map_of_answer_loop:
  "map_of (answer_loop thr q i bs answers) q' =
     (case first_marked thr bs of
        None \<Rightarrow> map_of answers q'
      | Some j \<Rightarrow> if q' = q then Some (choices ! (i + j)) else map_of answers q')"
  by (simp add: answer_loop_first_marked update_conv' split: option.splits)

lemma map_of_process_row:
  "map_of (process_row thr i row answers) q =
     (case row_answer thr i row q of Some l \<Rightarrow> Some l | None \<Rightarrow> map_of answers q)"
  by (auto simp: process_row_def row_answer_def side_letter_def Let_def map_of_answer_loop
      split: option.splits)

lemma row_answer_SomeD:
  "row_answer thr i row q = Some l \<Longrightarrow> (q = i + 1 \<and> q \<le> 25) \<or> (q = i + 26 \<and> q \<le> 50)"
  by (auto simp: row_answer_def split: if_splits)

lemma writer_Nil: "writer thr n [] q = None"
  by (simp add: writer_def)

lemma writer_Cons_here:
  assumes "(q = n + 1 \<and> q \<le> 25) \<or> (q = n + 26 \<and> q \<le> 50)"
  shows "writer thr n (r # rs) q = row_answer thr n r q" "writer thr (Suc n) rs q = None"
  using assms by (auto simp: writer_def)

lemma writer_Cons_later:
  assumes "\<not> (q = n + 1 \<and> q \<le> 25)" "\<not> (q = n + 26 \<and> q \<le> 50)"
  shows "writer thr n (r # rs) q = writer thr (Suc n) rs q"
proof -
  have L: "(n + 1 \<le> q \<and> q \<le> 25 \<and> q - 1 - n < length (r # rs)) \<longleftrightarrow>
           (Suc n + 1 \<le> q \<and> q \<le> 25 \<and> q - 1 - Suc n < length rs)"
    using assms(1) by (simp; arith)
  have R: "(n + 26 \<le> q \<and> q \<le> 50 \<and> q - 26 - n < length (r # rs)) \<longleftrightarrow>
           (Suc n + 26 \<le> q \<and> q \<le> 50 \<and> q - 26 - Suc n < length rs)"
    using assms(2) by (simp; arith)
  have nL: "(r # rs) ! (q - 1 - n) = rs ! (q - 1 - Suc n)" if "Suc n + 1 \<le> q"
    using that by (simp add: nth_Cons')
  have nR: "(r # rs) ! (q - 26 - n) = rs ! (q - 26 - Suc n)" if "Suc n + 26 \<le> q"
    using that by (simp add: nth_Cons')
  show ?thesis
    unfolding writer_def [of thr n] writer_def [of thr "Suc n"] L R
    using nL nR by simp
qed

lemma writer_Cons:
  "writer thr n (r # rs) q =
     (case writer thr (Suc n) rs q of Some l \<Rightarrow> Some l | None \<Rightarrow> row_answer thr n r q)"
proof (cases "(q = n + 1 \<and> q \<le> 25) \<or> (q = n + 26 \<and> q \<le> 50)")
  case True
  then show ?thesis by (simp only: writer_Cons_here option.case)
next
  case False
  then have none: "row_answer thr n r q = None"
    using row_answer_SomeD [of thr n r q] by (cases "row_answer thr n r q") auto
  from False have "writer thr n (r # rs) q = writer thr (Suc n) rs q"
    by (intro writer_Cons_later) auto
  then show ?thesis by (simp add: none split: option.splits)
qed

lemma map_of_rows_loop:
  "map_of (rows_loop thr n rs answers) q =
     (case writer thr n rs q of Some l \<Rightarrow> Some l | None \<Rightarrow> map_of answers q)"
proof (induction rs arbitrary: n answers)
  case Nil
  show ?case by (simp add: writer_Nil)
next
  case (Cons r rs)
  show ?case
    by (simp add: Cons.IH writer_Cons map_of_process_row split: option.splits)
qed

lemma map_of_rows_loop_0: "map_of (rows_loop thr 0 rs []) q = writer thr 0 rs q"
  by (simp add: map_of_rows_loop split: option.splits)

lemma side_letter_None_iff: "side_letter thr side = None \<longleftrightarrow> \<not> side_marked thr side"
  by (simp add: side_letter_def side_marked_def first_marked_None_iff)

lemma writer_None_iff: "writer thr 0 rs q = None \<longleftrightarrow> \<not> slot_marked thr rs q"
proof -
  consider (left) "1 \<le> q" "q \<le> 25" | (right) "26 \<le> q" "q \<le> 50" | (out) "q = 0 \<or> 50 < q"
    by linarith
  then show ?thesis
  proof cases
    case left
    then show ?thesis
      by (simp add: writer_def slot_marked_def row_answer_def side_letter_None_iff)
  next
    case right
    then show ?thesis
      by (simp add: writer_def slot_marked_def row_answer_def side_letter_None_iff)
  next
    case out
    then show ?thesis by (auto simp: writer_def slot_marked_def)
  qed
qed

subsection \<open>Well-formed answers\<close>

lemma set_update_cases:
  "(k', v') \<in> set (AList.update k v al) \<Longrightarrow> (k', v') = (k, v) \<or> (k', v') \<in> set al"
  by (induction al) (auto split: if_splits)

lemma choices_nth: "i < 4 \<Longrightarrow> choices ! i \<in> {''A'', ''B'', ''C'', ''D''}"
proof -
  assume "i < 4"
  then consider "i = 0" | "i = 1" | "i = 2" | "i = 3" by linarith
  then show ?thesis by cases (simp_all add: choices_def)
qed

lemma valid_update:
  "valid_answers answers \<Longrightarrow> 1 \<le> q \<Longrightarrow> q \<le> 50 \<Longrightarrow> v \<in> {''A'', ''B'', ''C'', ''D''}
   \<Longrightarrow> valid_answers (AList.update q v answers)"
  unfolding valid_answers_def
  by (auto simp: distinct_update dest!: set_update_cases)

lemma valid_answer_loop:
  "valid_answers answers \<Longrightarrow> 1 \<le> q \<Longrightarrow> q \<le> 50 \<Longrightarrow> i + length bs \<le> 4
   \<Longrightarrow> valid_answers (answer_loop thr q i bs answers)"
proof (induction bs arbitrary: i)
  case Nil
  then show ?case by simp
next
  case (Cons b bs)
  then have "i < 4" by simp
  with Cons show ?case by (auto intro!: valid_update choices_nth)
qed

lemma valid_process_row:
  "valid_answers answers \<Longrightarrow> valid_answers (process_row thr i row answers)"
  by (auto simp: process_row_def Let_def intro!: valid_answer_loop)

lemma valid_rows_loop:
  "valid_answers answers \<Longrightarrow> valid_answers (rows_loop thr n rs answers)"
  by (induction rs arbitrary: n answers) (auto intro: valid_process_row)

lemma valid_empty: "valid_answers []"
  by (simp add: valid_answers_def)

subsection \<open>Sample rows\<close>

lemma mk_bubble_simps [simp]:
  "center (mk_bubble x y fr) = (x, y)" "fill_ratio (mk_bubble x y fr) = fr"
  by (simp_all add: mk_bubble_def)

lemma scan_one_marked_row:
  "map_bubbles_to_questions (6 / 10) [(0, full_row 100 [9 / 10, 0, 9 / 10, 0, 0, 0, 0, 0])]
   = [(1, ''A'')]"
  by (simp add: map_bubbles_to_questions_def sorted_rows_def process_row_def full_row_def
      left_bubbles_def right_bubbles_def avg_x_def np_mean_def choices_def)

lemma left_lopsided: "length (left_bubbles lopsided_row) = 3"
  by (simp add: lopsided_row_def left_bubbles_def avg_x_def np_mean_def)

lemma scan_lopsided_row:
  "map_bubbles_to_questions (6 / 10) [(0, lopsided_row)] = [(26, ''A'')]"
  by (simp add: map_bubbles_to_questions_def sorted_rows_def process_row_def lopsided_row_def
      left_bubbles_def right_bubbles_def avg_x_def np_mean_def choices_def)

subsection \<open>A successful scan returns the mapping of the organized bubbles\<close>

lemma scan_success:
  assumes "imread path = Some img"
    and "detect_bubbles (thresh_of img) (contours_of img) = Inr bubbles"
  shows "snd (scan_answer_sheet thr imread path dbg odir) =
           map_bubbles_to_questions thr (organize_bubbles_by_rows bubbles)"
  using assms by (simp add: scan_answer_sheet_def preprocess_image_def Let_def)

subsection \<open>The claims about answer resolution\<close>

text \<open>
  Claim C4. The options of a slot are the first four bubbles of its side group in x order,
  standing for A, B, C, D in this order. When the first bubble above the threshold is
  preceded by \<open>pre\<close> (none of them above the threshold) and followed by \<open>rest\<close>, the answer
  written for the question is the letter at position \<open>length pre\<close>, whatever \<open>rest\<close> holds:
  further marked bubbles after the first one are never looked at, and replacing \<open>rest\<close> by
  any other bubbles leaves the result the same. This holds for the left group (question
  \<open>row_idx + 1\<close>) and for the right group (question \<open>row_idx + 26\<close>) of a row.
\<close>

theorem first_match_wins:
  assumes "take 4 (sort_key center_x side) = pre @ b # rest"
    and "\<forall>p\<in>set pre. fill_ratio p \<le> thr" and "fill_ratio b > thr"
    and "4 \<le> length row" and "4 \<le> length side" and "row_idx < 25"
    and "(side = left_bubbles row \<and> question_num = row_idx + 1) \<or>
         (side = right_bubbles row \<and> question_num = row_idx + 26)"
  shows "length pre < 4 \<and>
         answer_loop thr question_num 0 (take 4 (sort_key center_x side)) answers =
           AList.update question_num ([''A'', ''B'', ''C'', ''D''] ! length pre) answers \<and>
         answer_loop thr question_num 0 (pre @ b # others) answers =
           answer_loop thr question_num 0 (pre @ b # rest) answers \<and>
         map_of (process_row thr row_idx row answers) question_num =
           Some ([''A'', ''B'', ''C'', ''D''] ! length pre)"
proof -
  have "length (take 4 (sort_key center_x side)) \<le> 4" by simp
  then have len: "length pre < 4" unfolding assms(1) by simp
  have fm: "first_marked thr (pre @ b # xs) = Some (length pre)" for xs
    using assms(2,3) by (rule first_marked_append)
  have loop: "answer_loop thr question_num 0 (pre @ b # xs) answers =
                AList.update question_num (choices ! length pre) answers" for xs
    by (simp add: answer_loop_first_marked fm)
  have side: "side_letter thr side = Some (choices ! length pre)"
    using assms(5) by (simp add: side_letter_def assms(1) fm)
  have "row_answer thr row_idx row question_num = Some (choices ! length pre)"
    using assms(4,6,7) side by (auto simp: row_answer_def)
  then have "map_of (process_row thr row_idx row answers) question_num =
               Some (choices ! length pre)"
    by (simp add: map_of_process_row)
  with len loop [of rest] loop [of others] show ?thesis
    by (simp add: assms(1) choices_def)
qed

theorem first_match_wins_witness:
  "map_of (process_row (6 / 10) 0
     (full_row 100 [0, 8 / 10, 9 / 10, 0, 0, 0, 7 / 10, 8 / 10]) []) 1 = Some ''B'' \<and>
   map_of (process_row (6 / 10) 0
     (full_row 100 [0, 8 / 10, 9 / 10, 0, 0, 0, 7 / 10, 8 / 10]) []) 26 = Some ''C''"
proof -
  let ?row = "full_row 100 [0, 8 / 10, 9 / 10, 0, 0, 0, 7 / 10, 8 / 10]"
  have l: "take 4 (sort_key center_x (left_bubbles ?row)) =
             [mk_bubble 110 100 0] @ mk_bubble 140 100 (8 / 10) #
               [mk_bubble 170 100 (9 / 10), mk_bubble 200 100 0]"
    by (simp add: full_row_def left_bubbles_def avg_x_def np_mean_def)
  have r: "take 4 (sort_key center_x (right_bubbles ?row)) =
             [mk_bubble 510 100 0, mk_bubble 540 100 0] @ mk_bubble 570 100 (7 / 10) #
               [mk_bubble 600 100 (8 / 10)]"
    by (simp add: full_row_def right_bubbles_def avg_x_def np_mean_def)
  have len: "4 \<le> length ?row" "4 \<le> length (left_bubbles ?row)"
    "4 \<le> length (right_bubbles ?row)"
    by (simp_all add: full_row_def left_bubbles_def right_bubbles_def avg_x_def np_mean_def)
  have "map_of (process_row (6 / 10) 0 ?row []) (0 + 1) =
          Some ([''A'', ''B'', ''C'', ''D''] ! 1)"
    using first_match_wins [OF l _ _ len(1) len(2), of "6 / 10" 0 "0 + 1" "[]" "[]"] by simp
  moreover
  have "map_of (process_row (6 / 10) 0 ?row []) (0 + 26) =
          Some ([''A'', ''B'', ''C'', ''D''] ! 2)"
    using first_match_wins [OF r _ _ len(1) len(3), of "6 / 10" 0 "0 + 26" "[]" "[]"] by simp
  ultimately show ?thesis by simp
qed



text \<open>
  Claim C10. Whatever rows are handed to the mapping step, in whatever order, the
  resulting dictionary has every key once, every key lies in 1..50 and every value is one
  of A, B, C, D; in particular E is never produced.
\<close>

theorem answers_well_formed:
  "distinct (map fst (map_bubbles_to_questions thr organized)) \<and>
   (\<forall>(q, v)\<in>set (map_bubbles_to_questions thr organized).
      1 \<le> q \<and> q \<le> 50 \<and> v \<in> {''A'', ''B'', ''C'', ''D''} \<and> v \<noteq> ''E'') \<and>
   distinct (map fst (rows_loop thr 0 rs [])) \<and>
   (\<forall>(q, v)\<in>set (rows_loop thr 0 rs []).
      1 \<le> q \<and> q \<le> 50 \<and> v \<in> {''A'', ''B'', ''C'', ''D''} \<and> v \<noteq> ''E'')"
proof -
  have "valid_answers (rows_loop thr 0 xs [])" for xs
    by (intro valid_rows_loop valid_empty)
  from this [of "sorted_rows organized"] this [of rs] show ?thesis
    unfolding valid_answers_def map_bubbles_to_questions_def by fastforce
qed

theorem answers_well_formed_witness:
  "(1, ''A'') \<in> set (map_bubbles_to_questions (6 / 10)
      [(0, full_row 100 [9 / 10, 0, 9 / 10, 0, 0, 0, 0, 0])]) \<and>
   (1::nat) \<le> 1 \<and> (1::nat) \<le> 50 \<and> ''A'' \<in> {''A'', ''B'', ''C'', ''D''}"
  using answers_well_formed [of "6 / 10"
      "[(0, full_row 100 [9 / 10, 0, 9 / 10, 0, 0, 0, 0, 0])]" "[]"]
    scan_one_marked_row
  by simp

subsection \<open>What \<open>print_results\<close> shows for a question\<close>

lemma print_results_nth:
  assumes "1 \<le> q" and "q \<le> 50"
  shows "print_results answers ! q =
           Print (''Question '' @ fmt_2d q @ '': '' @
                  (case map_of answers q of
                     Some answer \<Rightarrow> answer
                   | None \<Rightarrow> ''No answer detected''))"
proof -
  from assms obtain k where k: "q = Suc k" "k < 50" by (cases q) auto
  have "[1..<51] ! k = Suc k" using k(2) by (simp add: nth_upt)
  then show ?thesis
    using k by (simp add: print_results_def nth_append)
qed

lemma fmt_2d_samples: "fmt_2d 26 = ''26''" "fmt_2d 1 = '' 1''"
  by (simp_all add: fmt_2d_def)

text \<open>
  Claim C1, as the code has it. The key set of the returned mapping is not the full range
  1..50. It is exactly the set of the questions whose slot has a bubble above the
  threshold, a subset of 1..50; a question whose slot has no such bubble has no entry in
  the mapping: nothing is stored for it, and the line \<open>print_results\<close> prints for it says
  \<open>No answer detected\<close>. This holds for the rows \<open>rs\<close> in whatever order the loop meets
  them; \<open>map_bubbles_to_questions\<close> runs the loop on the rows sorted by their mean y, and a
  successful scan returns its result unchanged.
\<close>


theorem answered_questions_only:
  "fst ` set (rows_loop thr 0 rs []) = {q. slot_marked thr rs q} \<and>
   {q. slot_marked thr rs q} \<subseteq> {1..50} \<and>
   (map_of (rows_loop thr 0 rs []) q = None \<longleftrightarrow> \<not> slot_marked thr rs q) \<and>
   (1 \<le> q \<and> q \<le> 50 \<and> \<not> slot_marked thr rs q \<longrightarrow>
      print_results (rows_loop thr 0 rs []) ! q =
        Print (''Question '' @ fmt_2d q @ '': No answer detected'')) \<and>
   map_bubbles_to_questions thr organized = rows_loop thr 0 (sorted_rows organized) [] \<and>
   (imread path = Some img \<and> detect_bubbles (thresh_of img) (contours_of img) = Inr bubbles
      \<longrightarrow> snd (scan_answer_sheet thr imread path dbg odir) =
            map_bubbles_to_questions thr (organize_bubbles_by_rows bubbles))"
proof -
  let ?A = "rows_loop thr 0 rs []"
  have none: "map_of ?A q' = None \<longleftrightarrow> \<not> slot_marked thr rs q'" for q'
    by (simp add: map_of_rows_loop_0 writer_None_iff)
  have "fst ` set ?A = {q'. map_of ?A q' \<noteq> None}"
    by (auto simp: map_of_eq_None_iff)
  then have keys: "fst ` set ?A = {q'. slot_marked thr rs q'}"
    by (simp add: none)
  have sub: "{q'. slot_marked thr rs q'} \<subseteq> {1..50}"
    by (auto simp: slot_marked_def)
  have shown: "print_results ?A ! q = Print (''Question '' @ fmt_2d q @ '': No answer detected'')"
    if "1 \<le> q" "q \<le> 50" "\<not> slot_marked thr rs q"
  proof -
    from that(3) none [of q] have "map_of ?A q = None" by blast
    then show ?thesis by (simp add: print_results_nth [OF that(1,2)])
  qed
  from keys sub none [of q] shown scan_success [of imread path img bubbles thr dbg odir]
  show ?thesis by (simp add: map_bubbles_to_questions_def)
qed

theorem answered_questions_only_witness:
  "fst ` set (map_bubbles_to_questions (6 / 10)
      [(0, full_row 100 [9 / 10, 0, 9 / 10, 0, 0, 0, 0, 0])]) = {1} \<and>
   {q. slot_marked (6 / 10) [full_row 100 [9 / 10, 0, 9 / 10, 0, 0, 0, 0, 0]] q} = {1} \<and>
   map_of (map_bubbles_to_questions (6 / 10)
      [(0, full_row 100 [9 / 10, 0, 9 / 10, 0, 0, 0, 0, 0])]) 26 = None \<and>
   print_results (map_bubbles_to_questions (6 / 10)
      [(0, full_row 100 [9 / 10, 0, 9 / 10, 0, 0, 0, 0, 0])]) ! 26 =
     Print ''Question 26: No answer detected'' \<and>
   snd (scan_answer_sheet (6 / 10) blank_sheet ''sheet.png'' False ''.'') =
     map_bubbles_to_questions (6 / 10) (organize_bubbles_by_rows [])"
proof -
  let ?row = "full_row 100 [9 / 10, 0, 9 / 10, 0, 0, 0, 0, 0]"
  have img: "blank_sheet ''sheet.png'' = Some \<lparr>thresh_of = [], contours_of = []\<rparr>"
    by (simp add: blank_sheet_def)
  have det: "detect_bubbles (thresh_of \<lparr>thresh_of = [], contours_of = []\<rparr>)
               (contours_of \<lparr>thresh_of = [], contours_of = []\<rparr>) = Inr []"
    by (simp add: detect_bubbles_def)
  have rs: "sorted_rows [(0, ?row)] = [?row]"
    by (simp add: sorted_rows_def)
  show ?thesis
    using answered_questions_only [where thr = "6 / 10" and rs = "[?row]"
        and organized = "[(0, ?row)]" and q = 26
        and imread = blank_sheet and path = "''sheet.png''"
        and img = "\<lparr>thresh_of = [], contours_of = []\<rparr>" and bubbles = "[]"
        and dbg = False and odir = "''.''"]
      scan_one_marked_row img det fmt_2d_samples(1)
    unfolding rs by simp
qed

text \<open>
  The claim as stated fails on a sheet with a single marked bubble, and on a readable
  image without any bubble: the first mapping has the one key 1, the second has none.
\<close>

theorem unanswered_is_omitted_counterexample:
  "map_bubbles_to_questions (6 / 10) [(0, full_row 100 [9 / 10, 0, 9 / 10, 0, 0, 0, 0, 0])]
     = [(1, ''A'')] \<and>
   fst ` set (map_bubbles_to_questions (6 / 10)
     [(0, full_row 100 [9 / 10, 0, 9 / 10, 0, 0, 0, 0, 0])]) \<noteq> {1..50} \<and>
   snd (scan_answer_sheet (6 / 10) blank_sheet ''sheet.png'' False ''.'') = []"
proof -
  have blank: "snd (scan_answer_sheet (6 / 10) blank_sheet ''sheet.png'' False ''.'') = []"
    by (simp add: scan_answer_sheet_def preprocess_image_def blank_sheet_def
        detect_bubbles_def organize_bubbles_by_rows_def map_bubbles_to_questions_def
        sorted_rows_def)
  have "{1::nat} \<noteq> {1..50}"
  proof
    assume "{1::nat} = {1..50}"
    then have "((2::nat) \<in> {1}) = ((2::nat) \<in> {1..50})" by (rule arg_cong)
    then show False by simp
  qed
  with scan_one_marked_row blank show ?thesis by simp
qed

lemma right_lopsided:
  "take 4 (sort_key center_x (right_bubbles lopsided_row)) =
     [mk_bubble 480 100 (9 / 10), mk_bubble 510 100 0, mk_bubble 540 100 0, mk_bubble 570 100 0]"
  "length (right_bubbles lopsided_row) = 5"
  by (simp_all add: lopsided_row_def right_bubbles_def avg_x_def np_mean_def)

text \<open>
  Claim C7, as the code has it. A row with fewer than four bubbles is skipped entirely. In
  a row of at least four bubbles each side is tested on its own: a side with fewer than
  four bubbles is skipped, while the other side is still resolved and assigned: the pass
  over a row whose left side is short is the inner loop over its right side, and the other
  way round. For the row at position \<open>i < 25\<close> the question of a skipped left side is
  \<open>i + 1\<close> and that of a skipped right side is \<open>i + 26\<close>; such a question gets no entry in
  the mapping, \<open>print_results\<close> shows it as \<open>No answer detected\<close>, and the loop goes on
  with the next row. In the final mapping each of the two questions of a row of at least
  four bubbles has the letter its own side resolves to. \<open>rs\<close> are the rows in the order
  the loop meets them, which in \<open>map_bubbles_to_questions\<close> is the order of their mean y.
\<close>


theorem short_rows_and_sides_skipped:
  assumes "i < length rs" and "i < 25"
  shows "(length (rs ! i) < 4 \<longrightarrow>
            process_row thr i (rs ! i) answers = answers \<and>
            map_of (rows_loop thr 0 rs []) (i + 1) = None \<and>
            map_of (rows_loop thr 0 rs []) (i + 26) = None) \<and>
         (length (left_bubbles (rs ! i)) < 4 \<longrightarrow>
            map_of (process_row thr i (rs ! i) answers) (i + 1) = map_of answers (i + 1) \<and>
            map_of (rows_loop thr 0 rs []) (i + 1) = None \<and>
            print_results (rows_loop thr 0 rs []) ! (i + 1) =
              Print (''Question '' @ fmt_2d (i + 1) @ '': No answer detected'')) \<and>
         (length (right_bubbles (rs ! i)) < 4 \<longrightarrow>
            map_of (process_row thr i (rs ! i) answers) (i + 26) = map_of answers (i + 26) \<and>
            map_of (rows_loop thr 0 rs []) (i + 26) = None \<and>
            print_results (rows_loop thr 0 rs []) ! (i + 26) =
              Print (''Question '' @ fmt_2d (i + 26) @ '': No answer detected'')) \<and>
         (4 \<le> length (rs ! i) \<and> length (left_bubbles (rs ! i)) < 4 \<and>
          4 \<le> length (right_bubbles (rs ! i)) \<longrightarrow>
            process_row thr i (rs ! i) answers =
              answer_loop thr (i + 26) 0
                (take 4 (sort_key center_x (right_bubbles (rs ! i)))) answers) \<and>
         (4 \<le> length (rs ! i) \<and> length (right_bubbles (rs ! i)) < 4 \<and>
          4 \<le> length (left_bubbles (rs ! i)) \<longrightarrow>
            process_row thr i (rs ! i) answers =
              answer_loop thr (i + 1) 0
                (take 4 (sort_key center_x (left_bubbles (rs ! i)))) answers) \<and>
         (4 \<le> length (rs ! i) \<longrightarrow>
            map_of (rows_loop thr 0 rs []) (i + 1) = side_letter thr (left_bubbles (rs ! i)) \<and>
            map_of (rows_loop thr 0 rs []) (i + 26) = side_letter thr (right_bubbles (rs ! i))) \<and>
         map_bubbles_to_questions thr organized = rows_loop thr 0 (sorted_rows organized) []"
proof -
  let ?A = "rows_loop thr 0 rs []"
  have short: "process_row thr i (rs ! i) answers = answers" if "length (rs ! i) < 4"
    using that by (simp add: process_row_def)
  have wl: "writer thr 0 rs (i + 1) = row_answer thr i (rs ! i) (i + 1)"
    using assms by (simp add: writer_def)
  have wr: "writer thr 0 rs (i + 26) = row_answer thr i (rs ! i) (i + 26)"
    using assms by (simp add: writer_def)
  have l: "row_answer thr i (rs ! i) (i + 1) = None"
    if "length (rs ! i) < 4 \<or> length (left_bubbles (rs ! i)) < 4"
    using that by (auto simp: row_answer_def side_letter_def)
  have r: "row_answer thr i (rs ! i) (i + 26) = None"
    if "length (rs ! i) < 4 \<or> length (right_bubbles (rs ! i)) < 4"
    using that by (auto simp: row_answer_def side_letter_def)
  have ml: "map_of ?A (i + 1) = row_answer thr i (rs ! i) (i + 1)"
    unfolding map_of_rows_loop_0 by (rule wl)
  have mr: "map_of ?A (i + 26) = row_answer thr i (rs ! i) (i + 26)"
    unfolding map_of_rows_loop_0 by (rule wr)
  have pl: "map_of (process_row thr i (rs ! i) answers) (i + 1) = map_of answers (i + 1)"
    if "length (left_bubbles (rs ! i)) < 4"
  proof -
    from that have "row_answer thr i (rs ! i) (i + 1) = None" by (intro l) simp
    then show ?thesis unfolding map_of_process_row by (simp only: option.case)
  qed
  have pr: "map_of (process_row thr i (rs ! i) answers) (i + 26) = map_of answers (i + 26)"
    if "length (right_bubbles (rs ! i)) < 4"
  proof -
    from that have "row_answer thr i (rs ! i) (i + 26) = None" by (intro r) simp
    then show ?thesis unfolding map_of_process_row by (simp only: option.case)
  qed
  have shown: "print_results ?A ! q = Print (''Question '' @ fmt_2d q @ '': No answer detected'')"
    if "1 \<le> q" "q \<le> 50" "map_of ?A q = None" for q
    using that(3) by (simp add: print_results_nth [OF that(1,2)])
  have sl: "print_results ?A ! (i + 1) =
              Print (''Question '' @ fmt_2d (i + 1) @ '': No answer detected'')"
    if "length (left_bubbles (rs ! i)) < 4"
  proof (rule shown)
    show "map_of ?A (i + 1) = None" unfolding ml using that by (intro l) simp
  qed (use assms in simp_all)
  have sr: "print_results ?A ! (i + 26) =
              Print (''Question '' @ fmt_2d (i + 26) @ '': No answer detected'')"
    if "length (right_bubbles (rs ! i)) < 4"
  proof (rule shown)
    show "map_of ?A (i + 26) = None" unfolding mr using that by (intro r) simp
  qed (use assms in simp_all)
  have ol: "process_row thr i (rs ! i) answers =
              answer_loop thr (i + 26) 0
                (take 4 (sort_key center_x (right_bubbles (rs ! i)))) answers"
    if "4 \<le> length (rs ! i)" "length (left_bubbles (rs ! i)) < 4"
       "4 \<le> length (right_bubbles (rs ! i))"
    using that assms(2) by (simp add: process_row_def Let_def)
  have or: "process_row thr i (rs ! i) answers =
              answer_loop thr (i + 1) 0
                (take 4 (sort_key center_x (left_bubbles (rs ! i)))) answers"
    if "4 \<le> length (rs ! i)" "length (right_bubbles (rs ! i)) < 4"
       "4 \<le> length (left_bubbles (rs ! i))"
    using that assms(2) by (simp add: process_row_def Let_def)
  have both: "row_answer thr i (rs ! i) (i + 1) = side_letter thr (left_bubbles (rs ! i)) \<and>
              row_answer thr i (rs ! i) (i + 26) = side_letter thr (right_bubbles (rs ! i))"
    if "4 \<le> length (rs ! i)"
    using that assms(2) by (simp add: row_answer_def)
  have "map_bubbles_to_questions thr organized = rows_loop thr 0 (sorted_rows organized) []"
    by (simp add: map_bubbles_to_questions_def)
  then show ?thesis
    unfolding ml mr using short l r pl pr sl sr ol or both by blast
qed

theorem short_rows_and_sides_skipped_witness:
  "map_of (process_row (6 / 10) 0 lopsided_row [(1, ''C'')]) 1 = Some ''C'' \<and>
   map_of (map_bubbles_to_questions (6 / 10) [(0, lopsided_row)]) 1 = None \<and>
   print_results (map_bubbles_to_questions (6 / 10) [(0, lopsided_row)]) ! 1 =
     Print ''Question  1: No answer detected'' \<and>
   process_row (6 / 10) 0 lopsided_row [] = [(26, ''A'')] \<and>
   map_of (map_bubbles_to_questions (6 / 10) [(0, lopsided_row)]) 26 = Some ''A'' \<and>
   process_row (6 / 10) 0 (take 3 lopsided_row) [(1, ''C'')] = [(1, ''C'')] \<and>
   map_of (map_bubbles_to_questions (6 / 10) [(0, full_row 100 [0, 0, 0, 0, 9 / 10, 0, 0])]) 26
     = None"
proof -
  have rs: "sorted_rows [(0, r)] = [r]" for r
    by (simp add: sorted_rows_def)
  have mbq: "map_bubbles_to_questions thr [(0, r)] = rows_loop thr 0 [r] []" for thr r
    by (simp add: map_bubbles_to_questions_def rs)
  have len: "4 \<le> length lopsided_row" by (simp add: lopsided_row_def)
  have left: "length (left_bubbles lopsided_row) < 4" using left_lopsided by simp
  have right: "4 \<le> length (right_bubbles lopsided_row)" using right_lopsided(2) by simp
  have letter: "side_letter (6 / 10) (right_bubbles lopsided_row) = Some ''A''"
    using right by (simp add: side_letter_def right_lopsided(1) choices_def)
  have loop: "answer_loop (6 / 10) 26 0
                (take 4 (sort_key center_x (right_bubbles lopsided_row))) [] = [(26, ''A'')]"
    by (simp add: right_lopsided(1) choices_def)
  note t = short_rows_and_sides_skipped [where i = 0 and rs = "[lopsided_row]"
      and thr = "6 / 10" and organized = "[(0, lopsided_row)]", simplified]
  from t [of "[(1, ''C'')]"] left
  have a: "map_of (process_row (6 / 10) 0 lopsided_row [(1, ''C'')]) 1 = Some ''C''"
    by simp
  from t [of "[]"] left
  have b: "map_of (rows_loop (6 / 10) 0 [lopsided_row] []) 1 = None"
    and c: "print_results (rows_loop (6 / 10) 0 [lopsided_row] []) ! 1 =
              Print (''Question '' @ fmt_2d 1 @ '': No answer detected'')"
    by simp_all
  from t [of "[]"] len left right
  have "process_row (6 / 10) 0 lopsided_row [] =
          answer_loop (6 / 10) 26 0 (take 4 (sort_key center_x (right_bubbles lopsided_row))) []"
    by simp
  then have d: "process_row (6 / 10) 0 lopsided_row [] = [(26, ''A'')]"
    unfolding loop .
  from t [of "[]"] len
  have "map_of (rows_loop (6 / 10) 0 [lopsided_row] []) 26 =
          side_letter (6 / 10) (right_bubbles lopsided_row)"
    by simp
  then have e: "map_of (rows_loop (6 / 10) 0 [lopsided_row] []) 26 = Some ''A''"
    unfolding letter .
  have short: "length (take 3 lopsided_row) < 4" by simp
  from short_rows_and_sides_skipped [where i = 0 and rs = "[take 3 lopsided_row]"
      and thr = "6 / 10" and answers = "[(1, ''C'')]", simplified] short
  have f: "process_row (6 / 10) 0 (take 3 lopsided_row) [(1, ''C'')] = [(1, ''C'')]"
    by simp
  have r7: "length (right_bubbles (full_row 100 [0, 0, 0, 0, 9 / 10, 0, 0])) < 4"
    by (simp add: full_row_def right_bubbles_def avg_x_def np_mean_def)
  from short_rows_and_sides_skipped [where i = 0
      and rs = "[full_row 100 [0, 0, 0, 0, 9 / 10, 0, 0]]" and thr = "6 / 10", simplified] r7
  have g: "map_of (rows_loop (6 / 10) 0 [full_row 100 [0, 0, 0, 0, 9 / 10, 0, 0]] []) 26 = None"
    by simp
  from a b c d e f g show ?thesis
    unfolding mbq by (simp add: fmt_2d_def)
qed

text \<open>
  The claim as stated fails on a row with three bubbles left of the mean and five right of
  it: the row is not skipped, its right side is assigned to question 26.
\<close>

theorem short_side_counterexample:
  "length (left_bubbles lopsided_row) < 4 \<and>
   map_bubbles_to_questions (6 / 10) [(0, lopsided_row)] = [(26, ''A'')]"
  using left_lopsided scan_lopsided_row by simp

section \<open>Row clustering\<close>

lemma row_loop_append: "row_loop s (xs @ ys) = row_loop (row_loop s xs) ys"
  by (induction xs arbitrary: s) auto

lemma state_after_Suc:
  "n < length cs \<Longrightarrow> state_after cs (Suc n) = row_step (state_after cs n) (cs ! n)"
  by (simp add: state_after_def take_Suc_conv_app_nth row_loop_append)

lemma current_row_step:
  "current_row (row_step s b) =
     (if \<bar>center_y b - last_y s\<bar> > tolerance then Suc (current_row s) else current_row s)"
  by (simp add: row_step_def Let_def)

lemma last_y_step:
  "last_y (row_step s b) =
     (if \<bar>center_y b - last_y s\<bar> > tolerance then center_y b else last_y s)"
  by (simp add: row_step_def Let_def)

lemma rows_step:
  "map_of (rows (row_step s b)) k =
     (if k = current_row (row_step s b)
      then Some ((case map_of (rows s) k of None \<Rightarrow> [] | Some r \<Rightarrow> r) @ [b])
      else map_of (rows s) k)"
  by (auto simp: row_step_def Let_def update_conv' split: option.splits)

lemma row_of_0: "cs \<noteq> [] \<Longrightarrow> row_of cs 0 = 0"
  by (simp add: row_of_def state_after_Suc current_row_step)
     (simp add: state_after_def row_init_def tolerance_def)

lemma anchor_y_0: "cs \<noteq> [] \<Longrightarrow> anchor_y cs 0 = center_y (cs ! 0)"
  by (simp add: anchor_y_def state_after_Suc last_y_step)
     (simp add: state_after_def row_init_def tolerance_def)

lemma row_of_Suc:
  "Suc i < length cs \<Longrightarrow>
   row_of cs (Suc i) =
     (if \<bar>center_y (cs ! Suc i) - anchor_y cs i\<bar> > tolerance then Suc (row_of cs i)
      else row_of cs i)"
  by (simp add: row_of_def anchor_y_def state_after_Suc [of "Suc i"] current_row_step)

lemma anchor_y_Suc:
  "Suc i < length cs \<Longrightarrow>
   anchor_y cs (Suc i) =
     (if \<bar>center_y (cs ! Suc i) - anchor_y cs i\<bar> > tolerance then center_y (cs ! Suc i)
      else anchor_y cs i)"
  by (simp add: row_of_def anchor_y_def state_after_Suc [of "Suc i"] last_y_step)

lemma row_of_mono_Suc: "Suc i < length cs \<Longrightarrow> row_of cs i \<le> row_of cs (Suc i)"
  by (simp add: row_of_Suc)

lemma row_of_mono: "i \<le> j \<Longrightarrow> j < length cs \<Longrightarrow> row_of cs i \<le> row_of cs j"
proof (induction j)
  case 0
  then show ?case by simp
next
  case (Suc j)
  show ?case
  proof (cases "i = Suc j")
    case True
    then show ?thesis by simp
  next
    case False
    with Suc.prems have "i \<le> j" "j < length cs" by simp_all
    then have "row_of cs i \<le> row_of cs j" by (rule Suc.IH)
    also have "\<dots> \<le> row_of cs (Suc j)" using Suc.prems by (intro row_of_mono_Suc)
    finally show ?thesis .
  qed
qed

lemma anchor_is_first:
  "i < length cs \<Longrightarrow>
   \<exists>j\<le>i. anchor_y cs i = center_y (cs ! j) \<and> row_of cs j = row_of cs i \<and>
          (\<forall>k<j. row_of cs k < row_of cs j)"
proof (induction i)
  case 0
  then have "cs \<noteq> []" by auto
  then show ?case by (simp add: anchor_y_0)
next
  case (Suc i)
  then have i: "i < length cs" by simp
  show ?case
  proof (cases "\<bar>center_y (cs ! Suc i) - anchor_y cs i\<bar> > tolerance")
    case True
    have "\<forall>k<Suc i. row_of cs k < row_of cs (Suc i)"
    proof (intro allI impI)
      fix k assume "k < Suc i"
      then have "row_of cs k \<le> row_of cs i" using i by (intro row_of_mono) simp_all
      then show "row_of cs k < row_of cs (Suc i)"
        using True Suc.prems by (simp add: row_of_Suc)
    qed
    with True Suc.prems show ?thesis
      by (intro exI [of _ "Suc i"]) (simp add: anchor_y_Suc)
  next
    case False
    from Suc.IH [OF i] obtain j where j: "j \<le> i" "anchor_y cs i = center_y (cs ! j)"
      "row_of cs j = row_of cs i" "\<forall>k<j. row_of cs k < row_of cs j" by blast
    with False Suc.prems show ?thesis
      by (intro exI [of _ j]) (simp add: anchor_y_Suc row_of_Suc)
  qed
qed

lemma within_tolerance:
  "i < length cs \<Longrightarrow> \<bar>center_y (cs ! i) - anchor_y cs i\<bar> \<le> tolerance"
proof (induction i)
  case 0
  then have "cs \<noteq> []" by auto
  then show ?case by (simp add: anchor_y_0 tolerance_def)
next
  case (Suc i)
  then show ?case by (simp add: anchor_y_Suc tolerance_def)
qed

lemma anchor_le:
  assumes "sorted (map center_y cs)" "i < length cs"
  shows "anchor_y cs i \<le> center_y (cs ! i)"
proof -
  from anchor_is_first [OF assms(2)] obtain j where j: "j \<le> i"
    "anchor_y cs i = center_y (cs ! j)" by blast
  from assms j(1) have "map center_y cs ! j \<le> map center_y cs ! i"
    by (intro sorted_nth_mono) simp_all
  with assms(2) j show ?thesis by simp
qed

lemma gap_splits:
  assumes "sorted (map center_y cs)" "Suc i < length cs"
    "center_y (cs ! Suc i) - center_y (cs ! i) > tolerance"
  shows "row_of cs (Suc i) = Suc (row_of cs i)"
proof -
  have "anchor_y cs i \<le> center_y (cs ! i)" using assms by (intro anchor_le) simp_all
  with assms(3) have "\<bar>center_y (cs ! Suc i) - anchor_y cs i\<bar> > tolerance" by simp
  with assms(2) show ?thesis by (simp add: row_of_Suc)
qed

lemma length_ids_from [simp]: "length (ids_from s bs) = length bs"
  by (induction bs arbitrary: s) auto

lemma ids_from_nth:
  "i < length bs \<Longrightarrow> ids_from s bs ! i = current_row (row_loop s (take (Suc i) bs))"
proof (induction bs arbitrary: s i)
  case Nil
  then show ?case by simp
next
  case (Cons b bs)
  then show ?case by (cases i) simp_all
qed

lemma ids_from_init: "ids_from (row_init cs) cs = map (row_of cs) [0..<length cs]"
  by (rule nth_equalityI) (simp_all add: ids_from_nth row_of_def state_after_def)

lemma rows_loop_members:
  "map_of (rows (row_loop s bs)) k =
     (let m = map snd (filter (\<lambda>p. fst p = k) (zip (ids_from s bs) bs)) in
      if m = [] then map_of (rows s) k
      else Some ((case map_of (rows s) k of None \<Rightarrow> [] | Some r \<Rightarrow> r) @ m))"
proof (induction bs arbitrary: s)
  case Nil
  show ?case by simp
next
  case (Cons b bs)
  show ?case
    by (simp add: Cons.IH [of "row_step s b"] rows_step Let_def)
qed

lemma map_of_organize:
  "map_of (organize_bubbles_by_rows bubbles) k =
     (let m = row_members (sort_key center_y bubbles) k in
      if m = [] then None else Some (sort_key center_x m))"
proof (cases "bubbles = []")
  case True
  then show ?thesis by (simp add: organize_bubbles_by_rows_def row_members_def)
next
  case False
  have init: "map_of (rows (row_init cs)) k = None" for cs
    by (simp add: row_init_def)
  show ?thesis
    using False
    by (simp add: organize_bubbles_by_rows_def Let_def map_of_map rows_loop_members
        ids_from_init row_members_def init)
qed

lemma row_step_eval:
  "row_step s b =
     (let k = (if \<bar>center_y b - last_y s\<bar> > tolerance then Suc (current_row s)
               else current_row s)
      in \<lparr>rows = AList.update k
                    ((case map_of (rows s) k of None \<Rightarrow> [] | Some r \<Rightarrow> r) @ [b]) (rows s),
           current_row = k,
           last_y = (if \<bar>center_y b - last_y s\<bar> > tolerance then center_y b else last_y s)\<rparr>)"
  by (simp add: row_step_def Let_def update_conv' split: option.splits)

text \<open>The rows of the result have distinct numbers and none of them is empty.\<close>

lemma distinct_rows_step:
  "distinct (map fst (rows s)) \<Longrightarrow> distinct (map fst (rows (row_step s b)))"
  by (simp add: row_step_eval Let_def distinct_update)

lemma distinct_rows_loop:
  "distinct (map fst (rows s)) \<Longrightarrow> distinct (map fst (rows (row_loop s bs)))"
  by (induction bs arbitrary: s) (simp_all add: distinct_rows_step)

lemma distinct_organize: "distinct (map fst (organize_bubbles_by_rows bubbles))"
proof -
  have keys: "map fst (map (\<lambda>(k, row). (k, sort_key center_x row)) al) = map fst al"
    for al :: organized
    by (induction al) auto
  have "distinct (map fst (rows (row_loop (row_init bs) bs)))" for bs
    by (intro distinct_rows_loop) (simp add: row_init_def)
  then show ?thesis
    unfolding organize_bubbles_by_rows_def Let_def by (simp only: keys split: if_split) simp
qed

lemma organize_rows_nonempty:
  assumes "(k, row) \<in> set (organize_bubbles_by_rows bubbles)"
  shows "row \<noteq> []"
proof -
  from assms distinct_organize have "map_of (organize_bubbles_by_rows bubbles) k = Some row"
    by (rule map_of_is_SomeI [rotated])
  then have "row = sort_key center_x (row_members (sort_key center_y bubbles) k)"
    and "row_members (sort_key center_y bubbles) k \<noteq> []"
    by (auto simp: map_of_organize Let_def split: if_splits)
  then have "length row \<noteq> 0" by simp
  then show ?thesis by blast
qed

lemma sorted_by_y: "sorted (map center_y (sort_key center_y bubbles))"
  by (rule sorted_sort_key)

lemma organize_drifting:
  "organize_bubbles_by_rows drifting =
     [(0, [mk_bubble 110 100 0, mk_bubble 140 115 0]), (1, [mk_bubble 170 130 0])]"
  by (simp add: organize_bubbles_by_rows_def drifting_def row_init_def row_step_eval
      tolerance_def)

lemma drifting_sorted: "drifting = sort_key center_y drifting"
  by (simp add: drifting_def)

lemma length_drifting: "length drifting = 3"
  by (simp add: drifting_def)

lemma drifting_rows_0_2: "row_of drifting 0 = 0" "row_of drifting 2 = 1"
  by (simp_all add: row_of_def state_after_def drifting_def row_init_def row_step_eval
      tolerance_def)

lemma drifting_row_1: "row_of drifting 1 = 0" "anchor_y drifting 1 = 100"
  by (simp_all add: row_of_def anchor_y_def state_after_def drifting_def row_init_def
      row_step_eval tolerance_def)

lemma upt_0_3: "[0..<3] = [0, 1, 2::nat]"
  by code_simp

lemma drifting_members_1: "row_members drifting 1 = [mk_bubble 170 130 0]"
  unfolding row_members_def length_drifting upt_0_3
  using drifting_row_1 drifting_rows_0_2 by (simp add: drifting_def)

lemma two_row_0: "row_of [mk_bubble 110 100 0, mk_bubble 140 130 0] 0 = 0"
  by (simp add: row_of_0)

text \<open>
  Claim C2, as the code has it. \<open>last_y\<close> is the y of the first candidate of the current
  row (the row's anchor): it is assigned only when a row is started. In the list sorted by
  y, a candidate starts a new row exactly when its y differs from the anchor of the
  current row by more than the tolerance (20 pixels). Hence two consecutive candidates
  whose y differ by more than the tolerance end up in different rows, while two
  consecutive candidates closer than the tolerance are in the same row only if the later
  one is also within the tolerance of the anchor. The row \<open>k\<close> of the result holds, sorted
  by x, the candidates that were appended under the row number \<open>k\<close>.
\<close>

theorem new_row_by_anchor:
  assumes "cs = sort_key center_y bubbles" and "Suc i < length cs"
  shows "row_of cs (Suc i) =
           (if \<bar>center_y (cs ! Suc i) - anchor_y cs i\<bar> > tolerance then Suc (row_of cs i)
            else row_of cs i) \<and>
         (\<exists>j\<le>i. anchor_y cs i = center_y (cs ! j) \<and> row_of cs j = row_of cs i \<and>
                (\<forall>k<j. row_of cs k < row_of cs j)) \<and>
         anchor_y cs i \<le> center_y (cs ! i) \<and> center_y (cs ! i) \<le> anchor_y cs i + tolerance \<and>
         center_y (cs ! i) \<le> center_y (cs ! Suc i) \<and>
         (center_y (cs ! Suc i) - center_y (cs ! i) > tolerance \<longrightarrow>
            row_of cs (Suc i) = Suc (row_of cs i)) \<and>
         (\<forall>k. map_of (organize_bubbles_by_rows bubbles) k =
                (if row_members cs k = [] then None
                 else Some (sort_key center_x (row_members cs k)))) \<and>
         tolerance = 20"
proof -
  have sorted: "sorted (map center_y cs)"
    unfolding assms(1) by (rule sorted_by_y)
  from assms(2) have i: "i < length cs" by simp
  have "map center_y cs ! i \<le> map center_y cs ! Suc i"
    using sorted assms(2) by (intro sorted_nth_mono) simp_all
  then have step: "center_y (cs ! i) \<le> center_y (cs ! Suc i)"
    using assms(2) by simp
  have out: "map_of (organize_bubbles_by_rows bubbles) k =
               (if row_members cs k = [] then None
                else Some (sort_key center_x (row_members cs k)))" for k
    unfolding assms(1) by (simp add: map_of_organize Let_def)
  show ?thesis
    using row_of_Suc [OF assms(2)] anchor_is_first [OF i] anchor_le [OF sorted i] step
      within_tolerance [OF i] gap_splits [OF sorted assms(2)] out
    by (simp add: tolerance_def)
qed

theorem new_row_by_anchor_witness:
  "row_of drifting 1 = 0 \<and> row_of drifting (Suc 1) = 1 \<and> anchor_y drifting 1 = 100 \<and>
   center_y (drifting ! Suc 1) - center_y (drifting ! 1) = 15 \<and>
   map_of (organize_bubbles_by_rows drifting) 1 = Some [mk_bubble 170 130 0] \<and>
   row_of [mk_bubble 110 100 0, mk_bubble 140 130 0] (Suc 0) = 1"
proof -
  let ?two = "[mk_bubble 110 100 0, mk_bubble 140 130 0]"
  have s2: "?two = sort_key center_y ?two" by simp
  have l1: "Suc 1 < length drifting" by (simp add: drifting_def)
  have l2: "Suc 0 < length ?two" by simp
  have y: "center_y (drifting ! Suc 1) = 130" "center_y (drifting ! 1) = 115"
    "center_y (?two ! Suc 0) = 130" "center_y (?two ! 0) = 100"
    by (simp_all add: drifting_def)
  note t1 = new_row_by_anchor [OF drifting_sorted l1]
  note t2 = new_row_by_anchor [OF s2 l2]
  from t1 have "row_of drifting (Suc 1) =
      (if \<bar>center_y (drifting ! Suc 1) - anchor_y drifting 1\<bar> > tolerance
       then Suc (row_of drifting 1) else row_of drifting 1)"
    by (rule conjunct1)
  then have a: "row_of drifting (Suc 1) = 1"
    unfolding y drifting_row_1 tolerance_def by simp
  from t1 have "\<forall>k. map_of (organize_bubbles_by_rows drifting) k =
      (if row_members drifting k = [] then None
       else Some (sort_key center_x (row_members drifting k)))"
    by blast
  then have "map_of (organize_bubbles_by_rows drifting) 1 =
      (if row_members drifting 1 = [] then None
       else Some (sort_key center_x (row_members drifting 1)))"
    by (rule spec)
  then have b: "map_of (organize_bubbles_by_rows drifting) 1 = Some [mk_bubble 170 130 0]"
    unfolding drifting_members_1 by simp
  from t2 have "center_y (?two ! Suc 0) - center_y (?two ! 0) > tolerance \<longrightarrow>
      row_of ?two (Suc 0) = Suc (row_of ?two 0)"
    by blast
  then have c: "row_of ?two (Suc 0) = 1"
    unfolding y two_row_0 tolerance_def by simp
  from a b c drifting_row_1 y show ?thesis by simp
qed

text \<open>
  The claim as stated fails on candidates at y = 100, 115, 130: the last two are 15 pixels
  apart, less than the tolerance, and end up in different rows, because the third is 30
  pixels below the first.
\<close>

theorem consecutive_gap_counterexample:
  "\<bar>center_y (sort_key center_y drifting ! 2) - center_y (sort_key center_y drifting ! 1)\<bar>
     < tolerance \<and>
   organize_bubbles_by_rows drifting =
     [(0, [mk_bubble 110 100 0, mk_bubble 140 115 0]), (1, [mk_bubble 170 130 0])]"
  using organize_drifting by (simp add: drifting_def tolerance_def)

section \<open>Floating-point rounding\<close>

lemma expo_up_bounds: "1 \<le> x \<Longrightarrow> 2 powi expo_up x \<le> x \<and> x < 2 powi (expo_up x + 1)"
proof (induction x rule: expo_up.induct)
  case (1 x)
  show ?case
  proof (cases "x < 2")
    case True
    with "1.prems" show ?thesis by (simp add: expo_up.simps [of x])
  next
    case False
    then have "1 \<le> x / 2" by simp
    with "1.IH" False
    have "2 powi expo_up (x / 2) \<le> x / 2 \<and> x / 2 < 2 powi (expo_up (x / 2) + 1)"
      by simp
    with False show ?thesis
      by (simp add: expo_up.simps [of x] power_int_add)
  qed
qed

lemma expo_down_bounds:
  "0 < x \<Longrightarrow> x < 1 \<Longrightarrow> 2 powi expo_down x \<le> x \<and> x < 2 powi (expo_down x + 1)"
proof (induction x rule: expo_down.induct)
  case (1 x)
  show ?case
  proof (cases "1 \<le> 2 * x")
    case True
    then have "expo_down (2 * x) = 0" by (simp add: expo_down.simps [of "2 * x"])
    with "1.prems" True show ?thesis by (simp add: expo_down.simps [of x])
  next
    case False
    with "1.prems" "1.IH"
    have "2 powi expo_down (2 * x) \<le> 2 * x \<and> 2 * x < 2 powi (expo_down (2 * x) + 1)"
      by simp
    with "1.prems" show ?thesis
      by (simp add: expo_down.simps [of x] power_int_add power_int_diff)
  qed
qed

lemma binade_bounds:
  "x \<noteq> 0 \<Longrightarrow> 2 powi binade x \<le> \<bar>x\<bar> \<and> \<bar>x\<bar> < 2 powi (binade x + 1)"
  using expo_up_bounds [of "\<bar>x\<bar>"] expo_down_bounds [of "\<bar>x\<bar>"]
  by (simp add: binade_def)

lemma powi_less_imp_less: "(2::real) powi a < 2 powi b \<Longrightarrow> a < b"
proof (rule ccontr)
  assume less: "(2::real) powi a < 2 powi b" and "\<not> a < b"
  then have "b \<le> a" by simp
  then have "(2::real) powi b \<le> 2 powi a" by (rule power_int_increasing) simp
  with less show False by simp
qed

lemma binade_unique:
  assumes "2 powi e \<le> \<bar>x\<bar>" and "\<bar>x\<bar> < 2 powi (e + 1)"
  shows "binade x = e"
proof -
  have "(0::real) < 2 powi e" by simp
  with assms(1) have "0 < \<bar>x\<bar>" by linarith
  then have x: "x \<noteq> 0" by simp
  note b = binade_bounds [OF x]
  have "(2::real) powi e < 2 powi (binade x + 1)" using assms(1) b by linarith
  then have "e < binade x + 1" by (rule powi_less_imp_less)
  moreover
  have "(2::real) powi binade x < 2 powi (e + 1)" using assms(2) b by linarith
  then have "binade x < e + 1" by (rule powi_less_imp_less)
  ultimately show ?thesis by simp
qed




text \<open>The value of \<open>fl\<close> at a number whose binade is known.\<close>

lemma fl_eval:
  assumes "2 powi e \<le> \<bar>x\<bar>" and "\<bar>x\<bar> < 2 powi (e + 1)"
  shows "fl x = 2 powi (e - 52) * of_int (round_even (x / 2 powi (e - 52)))"
proof -
  have "(0::real) < 2 powi e" by simp
  with assms(1) have "0 < \<bar>x\<bar>" by linarith
  then have x: "x \<noteq> 0" by simp
  show ?thesis using x by (simp add: fl_def Let_def binade_unique [OF assms])
qed


lemma fl_one [simp]: "fl 1 = 1"
  using fl_eval [where e = 0 and x = 1] by (simp add: round_even_def)



section \<open>Fill ratio\<close>



























section \<open>Corner markers\<close>

lemma corners_loop_filter:
  "list_all positive_height cs \<Longrightarrow>
   corners_loop height width cs acc = Inr (acc @ valid_markers height width cs)"
proof (induction cs arbitrary: acc)
  case Nil
  show ?case by (simp add: valid_markers_def)
next
  case (Cons c cs)
  obtain x y w h where r: "boundingRect c = (x, y, w, h)" by (cases "boundingRect c") auto
  from Cons.prems have "positive_height c" and rest: "list_all positive_height cs"
    by simp_all
  with r have h: "h \<noteq> 0" by (simp add: positive_height_def)
  show ?case
    using h r Cons.IH [OF rest]
    by (simp add: valid_markers_def valid_marker_def marker_center_def Let_def)
qed

lemma fst_mono_prod: "(p :: int \<times> int) \<le> q \<Longrightarrow> fst p \<le> fst q"
  by (auto simp: less_eq_prod_def)

lemma sorted_first_least:
  assumes "sorted (xs :: (int \<times> int) list)" "x \<in> set xs"
  shows "xs ! 0 \<le> x"
proof -
  from assms(2) obtain i where "i < length xs" "xs ! i = x" by (auto simp: in_set_conv_nth)
  with assms(1) show ?thesis using sorted_nth_mono [of xs 0 i] by auto
qed

lemma sorted_last_greatest:
  assumes "sorted (xs :: (int \<times> int) list)" "x \<in> set xs"
  shows "x \<le> last xs"
proof -
  from assms(2) obtain i where i: "i < length xs" "xs ! i = x" by (auto simp: in_set_conv_nth)
  then have "xs \<noteq> []" by auto
  then have "last xs = xs ! (length xs - 1)" by (rule last_conv_nth)
  with assms(1) i show ?thesis using sorted_nth_mono [of xs i "length xs - 1"] by auto
qed

lemma top_corners_set:
  "set (top_corners height corners) = {c \<in> set corners. snd c < height div 2}"
  by (auto simp: top_corners_def)

lemma bottom_corners_set:
  "set (bottom_corners height corners) = {c \<in> set corners. snd c \<ge> height div 2}"
  by (auto simp: bottom_corners_def)

lemma top_sorted: "sorted (top_corners height corners)"
  by (simp add: top_corners_def)

lemma bottom_sorted: "sorted (bottom_corners height corners)"
  by (simp add: bottom_corners_def)

lemma picked_corner_order:
  assumes "length (top_corners height corners) \<ge> 2" "length (bottom_corners height corners) \<ge> 2"
  shows "corner_order height corners
           [top_corners height corners ! 0, last (top_corners height corners),
            last (bottom_corners height corners), bottom_corners height corners ! 0]"
proof -
  let ?t = "top_corners height corners" and ?b = "bottom_corners height corners"
  from assms have ne: "?t \<noteq> []" "?b \<noteq> []" by auto
  then have mem: "?t ! 0 \<in> set ?t" "last ?t \<in> set ?t" "?b ! 0 \<in> set ?b" "last ?b \<in> set ?b"
    by simp_all
  have t: "?t ! 0 \<le> c \<and> c \<le> last ?t" if "c \<in> set ?t" for c
    using that top_sorted [of height corners]
    by (simp add: sorted_first_least sorted_last_greatest)
  have b: "?b ! 0 \<le> c \<and> c \<le> last ?b" if "c \<in> set ?b" for c
    using that bottom_sorted [of height corners]
    by (simp add: sorted_first_least sorted_last_greatest)
  have "fst (?t ! 0) \<le> fst (last ?t)" using t [OF mem(2)] by (simp add: fst_mono_prod)
  moreover have "fst (?b ! 0) \<le> fst (last ?b)" using b [OF mem(4)] by (simp add: fst_mono_prod)
  moreover have "\<forall>c\<in>set corners. if snd c < height div 2 then ?t ! 0 \<le> c \<and> c \<le> last ?t
                            else ?b ! 0 \<le> c \<and> c \<le> last ?b"
    using t b by (auto simp: top_corners_set bottom_corners_set)
  ultimately show ?thesis
    using mem unfolding corner_order_def top_corners_set bottom_corners_set by simp
qed

text \<open>
  Claim C5. On contours whose bounding rectangles have a positive height, as OpenCV's
  have, corner detection raises nothing and returns a list of exactly four points. The
  loop collects the centres of the contours that pass the filter. When fewer than four
  markers pass the filter, or the top or the bottom half holds fewer than
  two of them, the result is the fallback: the corners of the image moved inwards by 50
  pixels. Otherwise the four points are, in this order, the top-left, top-right,
  bottom-right and bottom-left of the surviving markers.
\<close>

theorem corner_markers_total:
  assumes "list_all positive_height contours"
  shows "corners_loop height width contours [] = Inr (valid_markers height width contours) \<and>
         (\<exists>tleft tright bright bleft.
           detect_corner_markers height width contours = Inr [tleft, tright, bright, bleft] \<and>
           (if length (valid_markers height width contours) < 4 \<or>
               length (top_corners height (valid_markers height width contours)) < 2 \<or>
               length (bottom_corners height (valid_markers height width contours)) < 2
            then [tleft, tright, bright, bleft] =
                   [(50, 50), (width - 50, 50), (width - 50, height - 50), (50, height - 50)]
            else corner_order height (valid_markers height width contours)
                   [tleft, tright, bright, bleft]))"
proof -
  let ?cs = "valid_markers height width contours"
  have loop: "corners_loop height width contours [] = Inr ?cs"
    using corners_loop_filter [OF assms, of height width "[]"] by simp
  show ?thesis
  proof (cases "length ?cs < 4 \<or> length (top_corners height ?cs) < 2 \<or>
                length (bottom_corners height ?cs) < 2")
    case True
    then have "detect_corner_markers height width contours = Inr (fallback_corners height width)"
      by (auto simp: detect_corner_markers_def loop)
    with True loop show ?thesis by (simp add: fallback_corners_def)
  next
    case False
    then have "detect_corner_markers height width contours =
                 Inr [top_corners height ?cs ! 0, last (top_corners height ?cs),
                      last (bottom_corners height ?cs), bottom_corners height ?cs ! 0]"
      by (auto simp: detect_corner_markers_def loop)
    moreover from False have "corner_order height ?cs
                 [top_corners height ?cs ! 0, last (top_corners height ?cs),
                  last (bottom_corners height ?cs), bottom_corners height ?cs ! 0]"
      by (intro picked_corner_order) simp_all
    ultimately show ?thesis using False loop by simp
  qed
qed

lemma detect_four_markers:
  "detect_corner_markers 1000 800 four_markers =
     Inr [(35, 35), (765, 35), (765, 965), (35, 965)]"
  by (simp add: detect_corner_markers_def four_markers_def marker_def top_corners_def
      bottom_corners_def less_eq_prod_def)

theorem corner_markers_total_witness:
  "detect_corner_markers 1000 800 four_markers =
     Inr [(35, 35), (765, 35), (765, 965), (35, 965)] \<and>
   corner_order 1000 (valid_markers 1000 800 four_markers)
     [(35, 35), (765, 35), (765, 965), (35, 965)] \<and>
   detect_corner_markers 1000 800 [] = Inr [(50, 50), (750, 50), (750, 950), (50, 950)]"
proof -
  have p: "list_all positive_height four_markers"
    by (simp add: four_markers_def marker_def positive_height_def)
  have vm: "valid_markers 1000 800 four_markers = [(35, 35), (765, 35), (765, 965), (35, 965)]"
    by (simp add: valid_markers_def valid_marker_def marker_center_def four_markers_def
        marker_def)
  have tb: "top_corners 1000 [(35, 35), (765, 35), (765, 965), (35, 965)] = [(35, 35), (765, 35)]"
    "bottom_corners 1000 [(35, 35), (765, 35), (765, 965), (35, 965)] = [(35, 965), (765, 965)]"
    by (simp_all add: top_corners_def bottom_corners_def less_eq_prod_def)
  have e: "list_all positive_height []" by simp
  have "corner_order 1000 (valid_markers 1000 800 four_markers)
          [(35, 35), (765, 35), (765, 965), (35, 965)]"
    using corner_markers_total [OF p, of 1000 800] detect_four_markers
    unfolding vm tb by simp
  moreover
  have "detect_corner_markers 1000 800 [] = Inr [(50, 50), (750, 50), (750, 950), (50, 950)]"
    using corner_markers_total [OF e, of 1000 800] by (auto simp: valid_markers_def)
  ultimately show ?thesis using detect_four_markers by simp
qed

section \<open>The scan and the command line\<close>

text \<open>
  Claim C3, as the code has it. For a file that \<open>cv2.imread\<close> cannot read,
  \<open>preprocess_image\<close> raises \<open>ValueError\<close> with a message that names the path. The scan does
  not fail: \<open>scan_answer_sheet\<close> catches the exception, prints the message (path and
  reason) behind \<open>Error scanning answer sheet:\<close> and returns the empty mapping, without
  running a later stage and without any diagnostic output.
\<close>

theorem unreadable_image_reported:
  assumes "imread path = None"
  shows "preprocess_image imread path =
           Inl (ValueError (''Could not load image from '' @ path)) \<and>
         scan_answer_sheet thr imread path dbg odir =
           ([Print (''Error scanning answer sheet: Could not load image from '' @ path)], [])"
  using assms by (simp add: scan_answer_sheet_def preprocess_image_def)

theorem unreadable_image_reported_witness:
  "no_image ''missing.png'' = None \<and>
   scan_answer_sheet (6 / 10) no_image ''missing.png'' True ''out'' =
     ([Print ''Error scanning answer sheet: Could not load image from missing.png''], [])"
proof -
  have n: "no_image ''missing.png'' = None" by (simp add: no_image_def)
  from unreadable_image_reported [where imread = no_image and path = "''missing.png''"
      and thr = "6 / 10" and dbg = True and odir = "''out''"] n
  show ?thesis by simp
qed

text \<open>
  The claim as stated fails for a missing file: the scan returns normally, with the same
  mapping as for a readable blank sheet, and the script goes on to write that empty
  mapping to the results file.
\<close>

theorem unreadable_image_counterexample:
  "scan_answer_sheet (6 / 10) no_image ''missing.png'' False ''.'' =
     ([Print ''Error scanning answer sheet: Could not load image from missing.png''], []) \<and>
   snd (scan_answer_sheet (6 / 10) blank_sheet ''missing.png'' False ''.'') =
     snd (scan_answer_sheet (6 / 10) no_image ''missing.png'' False ''.'') \<and>
   JsonDump ''./scanned_answers.json'' [] \<in> set (main no_image (default_args ''missing.png''))"
  by (simp add: scan_answer_sheet_def preprocess_image_def no_image_def blank_sheet_def
      detect_bubbles_def organize_bubbles_by_rows_def map_bubbles_to_questions_def
      sorted_rows_def main_def default_args_def save_results_def path_join_def)

end
